theory Spec2Isabelle
  imports Main
begin

section \<open>Values, errors and the browser side\<close>

text \<open>
  The development embeds \<^verbatim>\<open>WebSocketManager\<close> of \<^verbatim>\<open>src/EventRecorder.js\<close>
  (the part after the document separator, headed \<^verbatim>\<open>// WebSocketManager.js\<close>).
  The closure variables of the manager and the browser objects it talks to (the sockets it
  has constructed, the pending timeouts, the pending handler promises) form one state
  record; every callback of the source is a function on that state, and the event loop
  is the function \<open>step\<close> that runs one callback to completion.
\<close>

datatype jsval =
    JUndefined
  | JNull
  | JBool bool
  | JNum int
  | JStr string
  | JArr "jsval list"
  | JObj "(string \<times> jsval) list"

text \<open>Exceptions of the source: a callback that throws ends there, and the exception is
  reported by the event loop (it is logged in \<open>uncaught\<close>).\<close>

datatype error =
    TypeError
  | InvalidStateError
  | SyntaxError
  | HandlerError
  | ReferenceError
  | Rejection jsval

text \<open>A member of the function map is called with the request's \<^verbatim>\<open>params\<close>. The call
  expression throws at once (the handler's own exception, or a TypeError when the member
  is no function or its result has no \<^verbatim>\<open>then\<close>; either is logged as \<open>HandlerError\<close>),
  or it returns a promise that resolves, rejects, or never settles.\<close>

datatype outcome = Throws | Resolves jsval | Rejects jsval | Unsettled

type_synonym handler = "jsval \<Rightarrow> outcome"

datatype ready_state = CONNECTING | OPEN | CLOSING | CLOSED

text \<open>The three closures the source passes to \<^verbatim>\<open>setTimeout\<close>.\<close>

datatype callback = ReconnectCb | ProbeCb | ServerTimeoutCb

datatype timer = Timer (tid: nat) (delay: nat) (cb: callback)

text \<open>The constructor arguments \<^verbatim>\<open>wsUrl\<close>, \<^verbatim>\<open>agentName\<close>, \<^verbatim>\<open>heartCheckTime\<close>, and what the
  browser decides: whether \<^verbatim>\<open>'WebSocket' in window\<close>, whether the n-th attempt's
  \<^verbatim>\<open>new WebSocket(wsUrl)\<close> throws, \<^verbatim>\<open>JSON.parse\<close> (\<open>None\<close> is its SyntaxError),
  \<^verbatim>\<open>JSON.stringify\<close>, and the conversion of a value that is no string to a property key
  (used by the \<^verbatim>\<open>in\<close> operator).\<close>

record env =
  wsUrl :: string
  agentName :: string
  heartCheckTime :: nat
  has_WebSocket :: bool
  ctor_throws :: "nat \<Rightarrow> bool"
  json_parse :: "string \<Rightarrow> jsval option"
  json_stringify :: "jsval \<Rightarrow> string"
  to_property_key :: "jsval \<Rightarrow> string"

text \<open>The closure variables \<^verbatim>\<open>lockReconnect\<close>, \<^verbatim>\<open>retry\<close>, \<^verbatim>\<open>ws\<close>, \<^verbatim>\<open>isClosed\<close>, the
  \<^verbatim>\<open>funcMap\<close> argument (the members of that object, the ones it inherits included: they
  are what the \<^verbatim>\<open>in\<close> operator tests and what a member access finds; \<^verbatim>\<open>addFunc\<close> adds
  own members), the two timer handles of \<^verbatim>\<open>heartCheck\<close>, and the browser side:
  the ready state of each socket constructed so far (sockets are numbered in order of
  construction), the pending timeouts, the pending promises of handler calls (with the
  parsed request the \<^verbatim>\<open>then\<close> closure holds), the frames transmitted, the handler calls
  made, the exceptions that escaped a callback, and the number of calls of
  \<^verbatim>\<open>createWebSocket\<close>.\<close>

record state =
  lockReconnect :: bool
  retry :: nat
  ws :: "nat option"
  isClosed :: bool
  funcMap :: "string \<Rightarrow> handler option"
  timeoutObj :: "nat option"
  serverTimeoutObj :: "nat option"
  nsockets :: nat
  ready :: "nat \<Rightarrow> ready_state"
  timers :: "timer list"
  next_timer :: nat
  promises :: "(nat \<times> jsval \<times> outcome) list"
  next_promise :: nat
  sent :: "(nat \<times> string) list"
  calls :: "(string \<times> jsval) list"
  uncaught :: "error list"
  attempts :: nat

section \<open>Browser primitives\<close>

definition throw :: "error \<Rightarrow> state \<Rightarrow> state" where
  "throw e s = s\<lparr>uncaught := uncaught s @ [e]\<rparr>"

definition setTimeout :: "callback \<Rightarrow> nat \<Rightarrow> state \<Rightarrow> nat \<times> state" where
  "setTimeout c d s =
     (next_timer s,
      s\<lparr>timers := timers s @ [Timer (next_timer s) d c], next_timer := next_timer s + 1\<rparr>)"

text \<open>\<^verbatim>\<open>clearTimeout\<close> of \<^verbatim>\<open>null\<close>, or of a handle whose timeout has fired, does nothing.\<close>

definition clearTimeout :: "nat option \<Rightarrow> state \<Rightarrow> state" where
  "clearTimeout h s = s\<lparr>timers := filter (\<lambda>t. Some (tid t) \<noteq> h) (timers s)\<rparr>"

text \<open>\<^verbatim>\<open>ws.send(frame)\<close>: a TypeError when \<^verbatim>\<open>ws\<close> is \<^verbatim>\<open>null\<close>, an InvalidStateError
  while the socket is connecting; an open socket transmits the frame, a closing or closed
  one discards it.\<close>

definition ws_send :: "string \<Rightarrow> state \<Rightarrow> error + state" where
  "ws_send frame s =
     (case ws s of
        None \<Rightarrow> Inl TypeError
      | Some k \<Rightarrow>
          (case ready s k of
             CONNECTING \<Rightarrow> Inl InvalidStateError
           | OPEN \<Rightarrow> Inr (s\<lparr>sent := sent s @ [(k, frame)]\<rparr>)
           | CLOSING \<Rightarrow> Inr s
           | CLOSED \<Rightarrow> Inr s))"

text \<open>\<^verbatim>\<open>ws.close()\<close>: a TypeError when \<^verbatim>\<open>ws\<close> is \<^verbatim>\<open>null\<close>; a connecting or open socket
  starts closing, a closing or closed one is left as it is.\<close>

definition ws_close :: "state \<Rightarrow> error + state" where
  "ws_close s =
     (case ws s of
        None \<Rightarrow> Inl TypeError
      | Some k \<Rightarrow>
          (case ready s k of
             CONNECTING \<Rightarrow> Inr (s\<lparr>ready := (ready s)(k := CLOSING)\<rparr>)
           | OPEN \<Rightarrow> Inr (s\<lparr>ready := (ready s)(k := CLOSING)\<rparr>)
           | CLOSING \<Rightarrow> Inr s
           | CLOSED \<Rightarrow> Inr s))"

text \<open>Reading a property of a parsed value: \<^verbatim>\<open>undefined\<close> where it is missing (the
  first binding of a key counts). Reading from \<^verbatim>\<open>null\<close> throws; \<open>onmessage\<close> tests for
  that before it reads.\<close>

fun get_prop :: "jsval \<Rightarrow> string \<Rightarrow> jsval" where
  "get_prop (JObj kvs) k = (case map_of kvs k of Some v \<Rightarrow> v | None \<Rightarrow> JUndefined)"
| "get_prop _ k = JUndefined"

definition property_key :: "env \<Rightarrow> jsval \<Rightarrow> string" where
  "property_key E v = (case v of JStr n \<Rightarrow> n | _ \<Rightarrow> to_property_key E v)"

section \<open>The manager\<close>

subsection \<open>\<^verbatim>\<open>reconnect\<close> and \<^verbatim>\<open>createWebSocket\<close>\<close>

definition reconnect :: "state \<Rightarrow> state" where
  "reconnect s =
     (let s1 = s\<lparr>retry := retry s + 1\<rparr>
      in if lockReconnect s1 \<or> retry s1 > 10 then s1
         else snd (setTimeout ReconnectCb 2000 (s1\<lparr>lockReconnect := True\<rparr>)))"

text \<open>\<^verbatim>\<open>createWebSocket\<close>: the \<^verbatim>\<open>try\<close> block constructs the socket (when the browser has
  \<^verbatim>\<open>WebSocket\<close>) and installs the four handlers on \<^verbatim>\<open>ws\<close>; the \<^verbatim>\<open>catch\<close> block calls
  \<^verbatim>\<open>reconnect\<close>. Without \<^verbatim>\<open>WebSocket\<close> the variable \<^verbatim>\<open>ws\<close> keeps its value, and
  \<^verbatim>\<open>initEventHandle\<close> throws when that is \<^verbatim>\<open>null\<close>.\<close>

definition createWebSocket :: "env \<Rightarrow> state \<Rightarrow> state" where
  "createWebSocket E s0 =
     (let s = s0\<lparr>attempts := attempts s0 + 1\<rparr>
      in if has_WebSocket E then
           (if ctor_throws E (attempts s0) then reconnect s
            else s\<lparr>ws := Some (nsockets s),
                   ready := (ready s)(nsockets s := CONNECTING),
                   nsockets := nsockets s + 1\<rparr>)
         else (case ws s of None \<Rightarrow> reconnect s | Some k \<Rightarrow> s))"

subsection \<open>\<^verbatim>\<open>heartCheck\<close>\<close>

definition heartCheck_reset :: "state \<Rightarrow> state" where
  "heartCheck_reset s = clearTimeout (serverTimeoutObj s) (clearTimeout (timeoutObj s) s)"

definition heartCheck_start :: "env \<Rightarrow> state \<Rightarrow> state" where
  "heartCheck_start E s =
     (case setTimeout ProbeCb (heartCheckTime E) s of
        (h, s1) \<Rightarrow> s1\<lparr>timeoutObj := Some h\<rparr>)"

text \<open>The closure of the probe timeout, and the closure of the timeout it arms.\<close>

definition probe_cb :: "env \<Rightarrow> state \<Rightarrow> state" where
  "probe_cb E s =
     (case ws_send ''ping'' s of
        Inl e \<Rightarrow> throw e s
      | Inr s1 \<Rightarrow>
          (case setTimeout ServerTimeoutCb (heartCheckTime E) s1 of
             (h, s2) \<Rightarrow> s2\<lparr>serverTimeoutObj := Some h\<rparr>))"

definition server_timeout_cb :: "state \<Rightarrow> state" where
  "server_timeout_cb s = (case ws_close s of Inl e \<Rightarrow> throw e s | Inr s1 \<Rightarrow> s1)"

text \<open>The closure of the reconnect timeout.\<close>

definition reconnect_cb :: "env \<Rightarrow> state \<Rightarrow> state" where
  "reconnect_cb E s = (createWebSocket E s)\<lparr>lockReconnect := False\<rparr>"

subsection \<open>\<^verbatim>\<open>initEventHandle\<close>: the four socket handlers\<close>

definition onclose :: "state \<Rightarrow> state" where
  "onclose s = reconnect s"

definition onerror :: "state \<Rightarrow> state" where
  "onerror s = reconnect s"

definition intro_frame :: "string \<Rightarrow> string" where
  \<open>intro_frame a = ''{"msg_type": "first_conn","agent": "'' @ a @ ''"}''\<close>

definition onopen :: "env \<Rightarrow> state \<Rightarrow> state" where
  "onopen E s =
     (let s1 = heartCheck_start E (heartCheck_reset s)
      in case ws_send (intro_frame (agentName E)) s1 of
           Inl e \<Rightarrow> throw e s1
         | Inr s2 \<Rightarrow> s2)"

definition answerResp :: "env \<Rightarrow> jsval \<Rightarrow> jsval \<Rightarrow> jsval" where
  "answerResp E d func_result =
     JObj [(''id'', get_prop d ''id''),
           (''msg_type'', JStr ''tools_result''),
           (''agent'', JStr (agentName E)),
           (''func_result'', func_result)]"

text \<open>The closure passed to \<^verbatim>\<open>then\<close>; an exception in it rejects the promise \<^verbatim>\<open>then\<close>
  returned, which nobody handles.\<close>

definition then_cb :: "env \<Rightarrow> jsval \<Rightarrow> jsval \<Rightarrow> state \<Rightarrow> state" where
  "then_cb E d func_result s =
     (case ws_send (json_stringify E (answerResp E d func_result)) s of
        Inl e \<Rightarrow> throw e s
      | Inr s1 \<Rightarrow> s1)"

definition invoke :: "string \<Rightarrow> handler \<Rightarrow> jsval \<Rightarrow> state \<Rightarrow> state" where
  "invoke name h d s =
     (let params = get_prop d ''params'';
          s1 = s\<lparr>calls := calls s @ [(name, params)]\<rparr>
      in case h params of
           Throws \<Rightarrow> throw HandlerError s1
         | out \<Rightarrow> s1\<lparr>promises := promises s1 @ [(next_promise s1, d, out)],
                     next_promise := next_promise s1 + 1\<rparr>)"

definition onmessage :: "env \<Rightarrow> string \<Rightarrow> state \<Rightarrow> state" where
  "onmessage E data s =
     (let s1 = heartCheck_start E (heartCheck_reset s)
      in if data = ''pong'' then s1
         else
           (case json_parse E data of
              None \<Rightarrow> throw SyntaxError s1
            | Some d \<Rightarrow>
                if d = JNull \<or> d = JUndefined then throw TypeError s1
                else if get_prop d ''msg_type'' = JStr ''tools'' then
                  (case funcMap s1 (property_key E (get_prop d ''func_name'')) of
                     None \<Rightarrow> s1
                   | Some h \<Rightarrow> invoke (property_key E (get_prop d ''func_name'')) h d s1)
                else s1))"

subsection \<open>The constructor and the returned operations\<close>

definition WebSocketManager :: "env \<Rightarrow> (string \<Rightarrow> handler option) \<Rightarrow> state" where
  "WebSocketManager E fm =
     createWebSocket E
       \<lparr>lockReconnect = False, retry = 0, ws = None, isClosed = False, funcMap = fm,
        timeoutObj = None, serverTimeoutObj = None,
        nsockets = 0, ready = (\<lambda>k. CLOSED), timers = [], next_timer = 0,
        promises = [], next_promise = 0, sent = [], calls = [], uncaught = [],
        attempts = 0\<rparr>"

definition close :: "state \<Rightarrow> state" where
  "close s0 =
     (let s = s0\<lparr>isClosed := True\<rparr>
      in case ws s of
           None \<Rightarrow> s
         | Some k \<Rightarrow>
             (case ws_close s of
                Inl e \<Rightarrow> throw e s
              | Inr s1 \<Rightarrow> s1\<lparr>ws := None\<rparr>))"

text \<open>\<^verbatim>\<open>status\<close>: \<^verbatim>\<open>ws.readyState\<close>, or \<^verbatim>\<open>WebSocket.CLOSED\<close> when \<^verbatim>\<open>ws\<close> is \<^verbatim>\<open>null\<close>;
  reading the latter throws a ReferenceError in a browser without \<^verbatim>\<open>WebSocket\<close>.\<close>

definition status :: "env \<Rightarrow> state \<Rightarrow> error + ready_state" where
  "status E s =
     (case ws s of
        Some k \<Rightarrow> Inr (ready s k)
      | None \<Rightarrow> if has_WebSocket E then Inr CLOSED else Inl ReferenceError)"

definition addFunc :: "string \<Rightarrow> handler \<Rightarrow> state \<Rightarrow> state" where
  "addFunc name func s = s\<lparr>funcMap := (funcMap s)(name \<mapsto> func)\<rparr>"

section \<open>The event loop\<close>

text \<open>One event is one callback run to completion: a signal of socket \<open>k\<close> (the browser
  sets its ready state, then calls the handler the manager installed on it; a socket never
  constructed has no handler), a pending timeout firing, the promise of a handler call
  settling, or the embedding application calling \<^verbatim>\<open>close\<close> or \<^verbatim>\<open>addFunc\<close>.\<close>

datatype event =
    WsOpen nat
  | WsMessage nat string
  | WsError nat
  | WsClose nat
  | Fire nat
  | Settle nat
  | CallClose
  | CallAddFunc string handler

definition run_timer :: "env \<Rightarrow> callback \<Rightarrow> state \<Rightarrow> state" where
  "run_timer E c s =
     (case c of
        ReconnectCb \<Rightarrow> reconnect_cb E s
      | ProbeCb \<Rightarrow> probe_cb E s
      | ServerTimeoutCb \<Rightarrow> server_timeout_cb s)"

definition fire :: "env \<Rightarrow> nat \<Rightarrow> state \<Rightarrow> state" where
  "fire E h s =
     (case find (\<lambda>t. tid t = h) (timers s) of
        None \<Rightarrow> s
      | Some t \<Rightarrow> run_timer E (cb t) (s\<lparr>timers := filter (\<lambda>t. tid t \<noteq> h) (timers s)\<rparr>))"

definition settle :: "env \<Rightarrow> nat \<Rightarrow> state \<Rightarrow> state" where
  "settle E p s =
     (case map_of (promises s) p of
        None \<Rightarrow> s
      | Some (d, out) \<Rightarrow>
          (case out of
             Resolves v \<Rightarrow>
               then_cb E d v (s\<lparr>promises := filter (\<lambda>q. fst q \<noteq> p) (promises s)\<rparr>)
           | Rejects r \<Rightarrow>
               throw (Rejection r) (s\<lparr>promises := filter (\<lambda>q. fst q \<noteq> p) (promises s)\<rparr>)
           | Throws \<Rightarrow> s
           | Unsettled \<Rightarrow> s))"

fun step :: "env \<Rightarrow> event \<Rightarrow> state \<Rightarrow> state" where
  "step E (WsOpen k) s =
     (if k < nsockets s then onopen E (s\<lparr>ready := (ready s)(k := OPEN)\<rparr>) else s)"
| "step E (WsMessage k data) s =
     (if k < nsockets s then onmessage E data s else s)"
| "step E (WsError k) s =
     (if k < nsockets s then onerror (s\<lparr>ready := (ready s)(k := CLOSED)\<rparr>) else s)"
| "step E (WsClose k) s =
     (if k < nsockets s then onclose (s\<lparr>ready := (ready s)(k := CLOSED)\<rparr>) else s)"
| "step E (Fire h) s = fire E h s"
| "step E (Settle p) s = settle E p s"
| "step E CallClose s = close s"
| "step E (CallAddFunc name func) s = addFunc name func s"

fun run :: "env \<Rightarrow> event list \<Rightarrow> state \<Rightarrow> state" where
  "run E [] s = s"
| "run E (e # es) s = run E es (step E e s)"

section \<open>What a call of \<^verbatim>\<open>ws.send\<close> does in a state\<close>

text \<open>The frames \<open>ws_send\<close> transmits and the exception it throws, read off its definition.\<close>

definition transmits :: "state \<Rightarrow> string \<Rightarrow> (nat \<times> string) list" where
  "transmits s frame =
     (case ws s of None \<Rightarrow> [] | Some k \<Rightarrow> if ready s k = OPEN then [(k, frame)] else [])"

definition send_error :: "state \<Rightarrow> error list" where
  "send_error s =
     (case ws s of
        None \<Rightarrow> [TypeError]
      | Some k \<Rightarrow> if ready s k = CONNECTING then [InvalidStateError] else [])"

section \<open>Invariants of the reachable states\<close>

definition pending :: "callback \<Rightarrow> state \<Rightarrow> timer list" where
  "pending c s = filter (\<lambda>t. cb t = c) (timers s)"

text \<open>The heartbeat timeouts: everything pending that is not a reconnect timeout.\<close>

definition heartbeat_timers :: "state \<Rightarrow> timer list" where
  "heartbeat_timers s = filter (\<lambda>t. cb t \<noteq> ReconnectCb) (timers s)"

definition handle_ok :: "nat option \<Rightarrow> nat \<Rightarrow> bool" where
  "handle_ok h n = (case h of None \<Rightarrow> True | Some i \<Rightarrow> i < n)"

definition tracked :: "callback \<Rightarrow> nat option \<Rightarrow> timer list \<Rightarrow> bool" where
  "tracked c h ts = list_all (\<lambda>t. (cb t = c) = (h = Some (tid t))) ts"

text \<open>Timer handles are fresh and unique; a pending probe timeout is the one \<^verbatim>\<open>timeoutObj\<close>
  holds, a pending force-close timeout the one \<^verbatim>\<open>serverTimeoutObj\<close> holds, and the two
  are never pending together.\<close>

definition timers_ok_at :: "timer list \<Rightarrow> nat \<Rightarrow> nat option \<Rightarrow> nat option \<Rightarrow> bool" where
  "timers_ok_at ts n p q =
     (distinct (map tid ts) \<and>
      list_all (\<lambda>t. tid t < n) ts \<and>
      tracked ProbeCb p ts \<and>
      tracked ServerTimeoutCb q ts \<and>
      (filter (\<lambda>t. cb t = ProbeCb) ts = [] \<or> filter (\<lambda>t. cb t = ServerTimeoutCb) ts = []) \<and>
      handle_ok p n \<and> handle_ok q n)"

definition timers_ok :: "state \<Rightarrow> bool" where
  "timers_ok s = timers_ok_at (timers s) (next_timer s) (timeoutObj s) (serverTimeoutObj s)"

text \<open>\<^verbatim>\<open>lockReconnect\<close> is set exactly while one reconnect timeout is pending.\<close>

definition lock_ok :: "state \<Rightarrow> bool" where
  "lock_ok s = (length (pending ReconnectCb s) = (if lockReconnect s then 1 else 0))"

text \<open>Calls of \<^verbatim>\<open>createWebSocket\<close> made and scheduled, against the failures counted.\<close>

definition budget_ok :: "state \<Rightarrow> bool" where
  "budget_ok s = (attempts s + length (pending ReconnectCb s) \<le> 1 + min (retry s) 10)"

definition ws_ok :: "state \<Rightarrow> bool" where
  "ws_ok s = (case ws s of None \<Rightarrow> True | Some k \<Rightarrow> k < nsockets s)"

definition promises_ok :: "state \<Rightarrow> bool" where
  "promises_ok s = list_all (\<lambda>q. fst q < next_promise s) (promises s)"

definition inv :: "state \<Rightarrow> bool" where
  "inv s = (timers_ok s \<and> lock_ok s \<and> budget_ok s \<and> ws_ok s \<and> promises_ok s)"

section \<open>The introduction frame of the wire protocol\<close>





section \<open>A concrete manager\<close>

text \<open>The manager of the end-to-end scenario: agent \<^verbatim>\<open>A1\<close>, and as function map the
  object literal with one handler \<^verbatim>\<open>ping_tool\<close> that resolves to \<^verbatim>\<open>"ok"\<close> and one handler
  \<^verbatim>\<open>bad_tool\<close> that rejects, in a browser that has \<^verbatim>\<open>WebSocket\<close> and whose constructor
  never throws. \<^verbatim>\<open>JSON.parse\<close> and \<^verbatim>\<open>JSON.stringify\<close> are given as tables of the
  frames the examples use.\<close>

definition ping_request :: jsval where
  "ping_request =
     JObj [(''msg_type'', JStr ''tools''), (''id'', JNum 7),
           (''func_name'', JStr ''ping_tool''), (''params'', JObj [])]"

definition bad_request :: jsval where
  "bad_request =
     JObj [(''msg_type'', JStr ''tools''), (''id'', JNum 8),
           (''func_name'', JStr ''bad_tool''), (''params'', JObj [])]"

definition unknown_request :: jsval where
  "unknown_request =
     JObj [(''msg_type'', JStr ''tools''), (''id'', JNum 9),
           (''func_name'', JStr ''no_such_tool''), (''params'', JObj [])]"

definition toString_request :: jsval where
  "toString_request =
     JObj [(''msg_type'', JStr ''tools''), (''id'', JNum 10),
           (''func_name'', JStr ''toString''), (''params'', JObj [])]"

definition example_parse :: "string \<Rightarrow> jsval option" where
  "example_parse frame =
     (if frame = ''ping_request'' then Some ping_request
      else if frame = ''bad_request'' then Some bad_request
      else if frame = ''unknown_request'' then Some unknown_request
      else if frame = ''toString_request'' then Some toString_request
      else None)"

definition example_stringify :: "jsval \<Rightarrow> string" where
  "example_stringify v =
     (if v = JObj [(''id'', JNum 7), (''msg_type'', JStr ''tools_result''),
                   (''agent'', JStr ''A1''), (''func_result'', JStr ''ok'')]
      then ''ping_response'' else ''other'')"

definition example_env :: env where
  "example_env =
     \<lparr>wsUrl = ''ws://host'', agentName = ''A1'', heartCheckTime = 59000,
      has_WebSocket = True, ctor_throws = (\<lambda>n. False),
      json_parse = example_parse, json_stringify = example_stringify,
      to_property_key = (\<lambda>v. ''undefined'')\<rparr>"

text \<open>The handlers the application registered: the own members of the object literal.\<close>

definition example_registry :: "string \<Rightarrow> handler option" where
  "example_registry =
     [''ping_tool'' \<mapsto> (\<lambda>params. Resolves (JStr ''ok'')),
      ''bad_tool'' \<mapsto> (\<lambda>params. Rejects (JStr ''failed''))]"

text \<open>What an object literal inherits from \<^verbatim>\<open>Object.prototype\<close>. For each of these names
  \<^verbatim>\<open>name in funcMap\<close> is true. Called the way \<^verbatim>\<open>onmessage\<close> calls a handler, each ends
  in an exception at once: the functions return no promise (\<^verbatim>\<open>toString\<close> a string,
  \<^verbatim>\<open>hasOwnProperty\<close> a boolean, \<^verbatim>\<open>valueOf\<close> the map itself, ...), so that \<^verbatim>\<open>.then\<close>
  of the result is no function, and \<^verbatim>\<open>__proto__\<close> is itself no function.\<close>

definition object_prototype :: "string \<Rightarrow> handler option" where
  "object_prototype name =
     (if name \<in> set [''constructor'', ''toString'', ''toLocaleString'', ''valueOf'',
                       ''hasOwnProperty'', ''isPrototypeOf'', ''propertyIsEnumerable'',
                       ''__proto__'', ''__defineGetter__'', ''__defineSetter__'',
                       ''__lookupGetter__'', ''__lookupSetter__'']
      then Some (\<lambda>params. Throws) else None)"

definition example_funcMap :: "string \<Rightarrow> handler option" where
  "example_funcMap name =
     (case example_registry name of
        Some h \<Rightarrow> Some h
      | None \<Rightarrow> object_prototype name)"

definition example_manager :: state where
  "example_manager = WebSocketManager example_env example_funcMap"

text \<open>Ten failed attempts, each ending with one close signal of its socket and followed by
  the reconnect timeout it scheduled; and six failed attempts that each end with an error
  signal and a close signal, as a browser delivers them for a connection that fails.\<close>

definition six_double_failures :: "event list" where
  "six_double_failures =
     [WsError 0, WsClose 0, Fire 0, WsError 1, WsClose 1, Fire 1, WsError 2, WsClose 2, Fire 2,
      WsError 3, WsClose 3, Fire 3, WsError 4, WsClose 4, Fire 4, WsError 5, WsClose 5]"

definition ten_failures :: "event list" where
  "ten_failures =
     [WsClose 0, Fire 0, WsClose 1, Fire 1, WsClose 2, Fire 2, WsClose 3, Fire 3,
      WsClose 4, Fire 4, WsClose 5, Fire 5, WsClose 6, Fire 6, WsClose 7, Fire 7,
      WsClose 8, Fire 8, WsClose 9, Fire 9]"

section \<open>What each operation changes\<close>

lemma throw_sel [simp]:
  "lockReconnect (throw e s) = lockReconnect s"
  "retry (throw e s) = retry s"
  "ws (throw e s) = ws s"
  "isClosed (throw e s) = isClosed s"
  "funcMap (throw e s) = funcMap s"
  "timeoutObj (throw e s) = timeoutObj s"
  "serverTimeoutObj (throw e s) = serverTimeoutObj s"
  "nsockets (throw e s) = nsockets s"
  "ready (throw e s) = ready s"
  "timers (throw e s) = timers s"
  "next_timer (throw e s) = next_timer s"
  "promises (throw e s) = promises s"
  "next_promise (throw e s) = next_promise s"
  "sent (throw e s) = sent s"
  "calls (throw e s) = calls s"
  "uncaught (throw e s) = uncaught s @ [e]"
  "attempts (throw e s) = attempts s"
  by (simp_all add: throw_def)

lemma reconnect_sel [simp]:
  "lockReconnect (reconnect s) = (lockReconnect s \<or> retry s < 10)"
  "retry (reconnect s) = retry s + 1"
  "timers (reconnect s) =
     (if lockReconnect s \<or> 10 \<le> retry s then timers s
      else timers s @ [Timer (next_timer s) 2000 ReconnectCb])"
  "next_timer (reconnect s) =
     (if lockReconnect s \<or> 10 \<le> retry s then next_timer s else next_timer s + 1)"
  "ws (reconnect s) = ws s"
  "isClosed (reconnect s) = isClosed s"
  "funcMap (reconnect s) = funcMap s"
  "timeoutObj (reconnect s) = timeoutObj s"
  "serverTimeoutObj (reconnect s) = serverTimeoutObj s"
  "nsockets (reconnect s) = nsockets s"
  "ready (reconnect s) = ready s"
  "promises (reconnect s) = promises s"
  "next_promise (reconnect s) = next_promise s"
  "sent (reconnect s) = sent s"
  "calls (reconnect s) = calls s"
  "uncaught (reconnect s) = uncaught s"
  "attempts (reconnect s) = attempts s"
  by (auto simp: reconnect_def setTimeout_def Let_def)

lemma createWebSocket_sel [simp]:
  "attempts (createWebSocket E s) = attempts s + 1"
  "isClosed (createWebSocket E s) = isClosed s"
  "funcMap (createWebSocket E s) = funcMap s"
  "timeoutObj (createWebSocket E s) = timeoutObj s"
  "serverTimeoutObj (createWebSocket E s) = serverTimeoutObj s"
  "promises (createWebSocket E s) = promises s"
  "next_promise (createWebSocket E s) = next_promise s"
  "sent (createWebSocket E s) = sent s"
  "calls (createWebSocket E s) = calls s"
  "uncaught (createWebSocket E s) = uncaught s"
  by (auto simp: createWebSocket_def Let_def split: option.splits)

text \<open>Whether this call of \<open>createWebSocket\<close> ends in its \<open>catch\<close> block.\<close>

lemma createWebSocket_cases:
  "createWebSocket E s = reconnect (s\<lparr>attempts := attempts s + 1\<rparr>) \<or>
   createWebSocket E s = s\<lparr>attempts := attempts s + 1\<rparr> \<or>
   createWebSocket E s =
     s\<lparr>attempts := attempts s + 1, ws := Some (nsockets s),
       ready := (ready s)(nsockets s := CONNECTING), nsockets := nsockets s + 1\<rparr>"
  by (auto simp: createWebSocket_def Let_def split: option.splits)

lemma heartCheck_reset_sel [simp]:
  "timers (heartCheck_reset s) =
     filter (\<lambda>t. Some (tid t) \<noteq> serverTimeoutObj s)
       (filter (\<lambda>t. Some (tid t) \<noteq> timeoutObj s) (timers s))"
  "lockReconnect (heartCheck_reset s) = lockReconnect s"
  "retry (heartCheck_reset s) = retry s"
  "ws (heartCheck_reset s) = ws s"
  "isClosed (heartCheck_reset s) = isClosed s"
  "funcMap (heartCheck_reset s) = funcMap s"
  "timeoutObj (heartCheck_reset s) = timeoutObj s"
  "serverTimeoutObj (heartCheck_reset s) = serverTimeoutObj s"
  "nsockets (heartCheck_reset s) = nsockets s"
  "ready (heartCheck_reset s) = ready s"
  "next_timer (heartCheck_reset s) = next_timer s"
  "promises (heartCheck_reset s) = promises s"
  "next_promise (heartCheck_reset s) = next_promise s"
  "sent (heartCheck_reset s) = sent s"
  "calls (heartCheck_reset s) = calls s"
  "uncaught (heartCheck_reset s) = uncaught s"
  "attempts (heartCheck_reset s) = attempts s"
  by (simp_all add: heartCheck_reset_def clearTimeout_def)

lemma heartCheck_start_sel [simp]:
  "timers (heartCheck_start E s) = timers s @ [Timer (next_timer s) (heartCheckTime E) ProbeCb]"
  "next_timer (heartCheck_start E s) = next_timer s + 1"
  "timeoutObj (heartCheck_start E s) = Some (next_timer s)"
  "lockReconnect (heartCheck_start E s) = lockReconnect s"
  "retry (heartCheck_start E s) = retry s"
  "ws (heartCheck_start E s) = ws s"
  "isClosed (heartCheck_start E s) = isClosed s"
  "funcMap (heartCheck_start E s) = funcMap s"
  "serverTimeoutObj (heartCheck_start E s) = serverTimeoutObj s"
  "nsockets (heartCheck_start E s) = nsockets s"
  "ready (heartCheck_start E s) = ready s"
  "promises (heartCheck_start E s) = promises s"
  "next_promise (heartCheck_start E s) = next_promise s"
  "sent (heartCheck_start E s) = sent s"
  "calls (heartCheck_start E s) = calls s"
  "uncaught (heartCheck_start E s) = uncaught s"
  "attempts (heartCheck_start E s) = attempts s"
  by (simp_all add: heartCheck_start_def setTimeout_def)

lemma ws_send_or_throw:
  "(case ws_send frame s of Inl e \<Rightarrow> throw e s | Inr s1 \<Rightarrow> s1) =
     s\<lparr>sent := sent s @ transmits s frame, uncaught := uncaught s @ send_error s\<rparr>"
  by (auto simp: ws_send_def throw_def transmits_def send_error_def
      split: option.splits ready_state.splits)

lemma transmits_hb [simp]:
  "transmits (heartCheck_start E (heartCheck_reset s)) frame = transmits s frame"
  "send_error (heartCheck_start E (heartCheck_reset s)) = send_error s"
  by (simp_all add: transmits_def send_error_def cong: option.case_cong)

lemma onopen_eq:
  "onopen E s =
     (heartCheck_start E (heartCheck_reset s))
       \<lparr>sent := sent s @ transmits s (intro_frame (agentName E)),
        uncaught := uncaught s @ send_error s\<rparr>"
  by (simp add: onopen_def Let_def ws_send_or_throw)

lemma then_cb_eq:
  "then_cb E d v s =
     s\<lparr>sent := sent s @ transmits s (json_stringify E (answerResp E d v)),
       uncaught := uncaught s @ send_error s\<rparr>"
  by (simp add: then_cb_def ws_send_or_throw)

lemma probe_cb_eq:
  "probe_cb E s =
     (if send_error s = [] then
        s\<lparr>sent := sent s @ transmits s ''ping'',
          timers := timers s @ [Timer (next_timer s) (heartCheckTime E) ServerTimeoutCb],
          next_timer := next_timer s + 1,
          serverTimeoutObj := Some (next_timer s)\<rparr>
      else s\<lparr>uncaught := uncaught s @ send_error s\<rparr>)"
  by (auto simp: probe_cb_def ws_send_def throw_def transmits_def send_error_def setTimeout_def
      split: option.splits ready_state.splits)

lemma server_timeout_cb_eq:
  "server_timeout_cb s =
     (case ws s of
        None \<Rightarrow> s\<lparr>uncaught := uncaught s @ [TypeError]\<rparr>
      | Some k \<Rightarrow>
          if ready s k = CONNECTING \<or> ready s k = OPEN
          then s\<lparr>ready := (ready s)(k := CLOSING)\<rparr> else s)"
  by (auto simp: server_timeout_cb_def ws_close_def throw_def
      split: option.splits ready_state.splits)

lemma close_eq:
  "close s =
     (case ws s of
        None \<Rightarrow> s\<lparr>isClosed := True\<rparr>
      | Some k \<Rightarrow>
          if ready s k = CONNECTING \<or> ready s k = OPEN
          then s\<lparr>isClosed := True, ready := (ready s)(k := CLOSING), ws := None\<rparr>
          else s\<lparr>isClosed := True, ws := None\<rparr>)"
  by (auto simp: close_def ws_close_def Let_def split: option.splits ready_state.splits)

lemma invoke_eq:
  "invoke name h d s =
     (if h (get_prop d ''params'') = Throws
      then s\<lparr>calls := calls s @ [(name, get_prop d ''params'')],
             uncaught := uncaught s @ [HandlerError]\<rparr>
      else s\<lparr>calls := calls s @ [(name, get_prop d ''params'')],
             promises := promises s @ [(next_promise s, d, h (get_prop d ''params''))],
             next_promise := next_promise s + 1\<rparr>)"
  by (auto simp: invoke_def Let_def throw_def split: outcome.splits)

lemma onmessage_sel [simp]:
  "timers (onmessage E data s) = timers (heartCheck_start E (heartCheck_reset s))"
  "next_timer (onmessage E data s) = next_timer s + 1"
  "timeoutObj (onmessage E data s) = Some (next_timer s)"
  "serverTimeoutObj (onmessage E data s) = serverTimeoutObj s"
  "lockReconnect (onmessage E data s) = lockReconnect s"
  "retry (onmessage E data s) = retry s"
  "attempts (onmessage E data s) = attempts s"
  "ws (onmessage E data s) = ws s"
  "nsockets (onmessage E data s) = nsockets s"
  "ready (onmessage E data s) = ready s"
  "isClosed (onmessage E data s) = isClosed s"
  "funcMap (onmessage E data s) = funcMap s"
  "sent (onmessage E data s) = sent s"
  by (simp_all add: onmessage_def Let_def invoke_eq split: option.splits)

section \<open>The timer invariant, on lists\<close>

lemma timers_ok_at_iff:
  "timers_ok_at ts n p q =
     (distinct (map tid ts) \<and>
      (\<forall>t\<in>set ts. tid t < n) \<and>
      (\<forall>t\<in>set ts. (cb t = ProbeCb) = (p = Some (tid t))) \<and>
      (\<forall>t\<in>set ts. (cb t = ServerTimeoutCb) = (q = Some (tid t))) \<and>
      ((\<forall>t\<in>set ts. cb t \<noteq> ProbeCb) \<or> (\<forall>t\<in>set ts. cb t \<noteq> ServerTimeoutCb)) \<and>
      (\<forall>i. p = Some i \<longrightarrow> i < n) \<and> (\<forall>i. q = Some i \<longrightarrow> i < n))"
  by (cases p; cases q)
     (simp_all add: timers_ok_at_def tracked_def handle_ok_def list_all_iff filter_empty_conv)

lemma tok_filter: "timers_ok_at ts n p q \<Longrightarrow> timers_ok_at (filter P ts) n p q"
  unfolding timers_ok_at_iff by (simp add: distinct_map_filter) blast

lemma tok_add_reconnect:
  "timers_ok_at ts n p q \<Longrightarrow> timers_ok_at (ts @ [Timer n d ReconnectCb]) (Suc n) p q"
  unfolding timers_ok_at_iff by (simp add: less_Suc_eq) blast

lemma tok_only_reconnect:
  assumes "timers_ok_at ts n p q"
    and "t \<in> set ts" and "Some (tid t) \<noteq> p" and "Some (tid t) \<noteq> q"
  shows "cb t = ReconnectCb"
proof -
  from assms have "cb t \<noteq> ProbeCb" and "cb t \<noteq> ServerTimeoutCb"
    unfolding timers_ok_at_iff by auto
  then show ?thesis by (cases "cb t") simp_all
qed

lemma tok_reconnect_untracked:
  assumes "timers_ok_at ts n p q" and "t \<in> set ts" and "cb t = ReconnectCb"
  shows "Some (tid t) \<noteq> p \<and> Some (tid t) \<noteq> q"
  using assms unfolding timers_ok_at_iff by auto

lemma tok_add_probe:
  assumes "timers_ok_at ts n p q" and "\<forall>t\<in>set ts. cb t = ReconnectCb"
  shows "timers_ok_at (ts @ [Timer n d ProbeCb]) (Suc n) (Some n) q"
  using assms unfolding timers_ok_at_iff by (simp add: less_Suc_eq) fastforce

lemma tok_add_server:
  assumes "timers_ok_at ts n p q" and "\<forall>t\<in>set ts. cb t = ReconnectCb"
  shows "timers_ok_at (ts @ [Timer n d ServerTimeoutCb]) (Suc n) p (Some n)"
  using assms unfolding timers_ok_at_iff by (simp add: less_Suc_eq) fastforce

lemma tok_probe_fired:
  assumes "timers_ok_at ts n p q" and "t \<in> set ts" and "cb t = ProbeCb"
    and "u \<in> set ts" and "tid u \<noteq> tid t"
  shows "cb u = ReconnectCb"
proof -
  from assms have "cb u \<noteq> ProbeCb" and "cb u \<noteq> ServerTimeoutCb"
    unfolding timers_ok_at_iff by auto
  then show ?thesis by (cases "cb u") simp_all
qed

section \<open>Preservation of the timer invariant\<close>

lemma reset_timers:
  assumes "timers_ok s"
  shows "timers (heartCheck_reset s) = pending ReconnectCb s"
proof -
  have "(Some (tid t) \<noteq> timeoutObj s \<and> Some (tid t) \<noteq> serverTimeoutObj s) = (cb t = ReconnectCb)"
    if "t \<in> set (timers s)" for t
    using tok_only_reconnect [OF assms [unfolded timers_ok_def] that]
      tok_reconnect_untracked [OF assms [unfolded timers_ok_def] that]
    by auto
  then show ?thesis
    by (auto simp: pending_def intro: filter_cong)
qed

lemma timers_ok_reset: "timers_ok s \<Longrightarrow> timers_ok (heartCheck_reset s)"
  by (simp add: timers_ok_def tok_filter)

lemma timers_ok_hb:
  assumes "timers_ok s"
  shows "timers_ok (heartCheck_start E (heartCheck_reset s))"
proof -
  have 1: "timers_ok_at (pending ReconnectCb s) (next_timer s) (timeoutObj s) (serverTimeoutObj s)"
    using timers_ok_reset [OF assms] by (simp add: timers_ok_def reset_timers [OF assms, symmetric])
  have 2: "\<forall>t\<in>set (pending ReconnectCb s). cb t = ReconnectCb"
    by (simp add: pending_def)
  from tok_add_probe [OF 1 2] show ?thesis
    using reset_timers [OF assms] by (simp add: timers_ok_def del: heartCheck_reset_sel(1))
qed

lemma timers_ok_reconnect: "timers_ok s \<Longrightarrow> timers_ok (reconnect s)"
  by (simp add: timers_ok_def tok_add_reconnect)

lemma timers_ok_attempts [simp]: "timers_ok (s\<lparr>attempts := a\<rparr>) = timers_ok s"
  by (simp add: timers_ok_def)

lemma timers_ok_createWebSocket: "timers_ok s \<Longrightarrow> timers_ok (createWebSocket E s)"
  using createWebSocket_cases [of E s] timers_ok_reconnect [of "s\<lparr>attempts := attempts s + 1\<rparr>"]
  by (auto simp: timers_ok_def)

lemma timers_ok_reconnect_cb: "timers_ok s \<Longrightarrow> timers_ok (reconnect_cb E s)"
  using timers_ok_createWebSocket [of s E] by (simp add: reconnect_cb_def timers_ok_def)

lemma timers_ok_server_timeout_cb: "timers_ok s \<Longrightarrow> timers_ok (server_timeout_cb s)"
  by (simp add: server_timeout_cb_eq timers_ok_def split: option.splits)

lemma timers_ok_fire:
  assumes "timers_ok s"
  shows "timers_ok (fire E h s)"
proof (cases "find (\<lambda>t. tid t = h) (timers s)")
  case None
  then show ?thesis using assms by (simp add: fire_def)
next
  case (Some t)
  let ?s = "s\<lparr>timers := filter (\<lambda>t. tid t \<noteq> h) (timers s)\<rparr>"
  from Some have t: "t \<in> set (timers s)" "tid t = h"
    by (auto simp: find_Some_iff)
  have ok: "timers_ok ?s"
    using assms by (simp add: timers_ok_def tok_filter)
  show ?thesis
  proof (cases "cb t")
    case ReconnectCb
    then show ?thesis
      using Some timers_ok_reconnect_cb [OF ok] by (simp add: fire_def run_timer_def)
  next
    case ProbeCb
    have rest: "\<forall>u\<in>set (timers ?s). cb u = ReconnectCb"
      using tok_probe_fired [OF assms [unfolded timers_ok_def] t(1) ProbeCb] t(2) by auto
    have "timers_ok_at (timers ?s @ [Timer (next_timer ?s) (heartCheckTime E) ServerTimeoutCb])
            (Suc (next_timer ?s)) (timeoutObj ?s) (Some (next_timer ?s))"
      by (rule tok_add_server [OF ok [unfolded timers_ok_def] rest])
    then have "timers_ok (probe_cb E ?s)"
      using ok by (simp add: probe_cb_eq timers_ok_def)
    then show ?thesis
      using Some ProbeCb by (simp add: fire_def run_timer_def)
  next
    case ServerTimeoutCb
    then show ?thesis
      using Some timers_ok_server_timeout_cb [OF ok] by (simp add: fire_def run_timer_def)
  qed
qed

lemma timers_ok_settle: "timers_ok s \<Longrightarrow> timers_ok (settle E p s)"
  by (simp add: settle_def then_cb_eq timers_ok_def split: option.splits outcome.splits)

lemma timers_ok_close: "timers_ok s \<Longrightarrow> timers_ok (close s)"
  by (simp add: close_eq timers_ok_def split: option.splits)

lemma timers_ok_ready [simp]: "timers_ok (s\<lparr>ready := r\<rparr>) = timers_ok s"
  by (simp add: timers_ok_def)

lemma timers_ok_onopen: "timers_ok s \<Longrightarrow> timers_ok (onopen E s)"
  using timers_ok_hb [of s E] by (simp add: onopen_eq timers_ok_def)

lemma timers_ok_onmessage: "timers_ok s \<Longrightarrow> timers_ok (onmessage E data s)"
  using timers_ok_hb [of s E] by (simp add: timers_ok_def)

lemma timers_ok_step: "timers_ok s \<Longrightarrow> timers_ok (step E e s)"
proof (cases e)
  case (WsOpen k)
  then show "timers_ok s \<Longrightarrow> ?thesis" using timers_ok_onopen [of "s\<lparr>ready := (ready s)(k := OPEN)\<rparr>" E] by simp
next
  case (WsMessage k data)
  then show "timers_ok s \<Longrightarrow> ?thesis" using timers_ok_onmessage by simp
next
  case (WsError k)
  then show "timers_ok s \<Longrightarrow> ?thesis"
    using timers_ok_reconnect [of "s\<lparr>ready := (ready s)(k := CLOSED)\<rparr>"] by (simp add: onerror_def)
next
  case (WsClose k)
  then show "timers_ok s \<Longrightarrow> ?thesis"
    using timers_ok_reconnect [of "s\<lparr>ready := (ready s)(k := CLOSED)\<rparr>"] by (simp add: onclose_def)
next
  case (Fire h)
  then show "timers_ok s \<Longrightarrow> ?thesis" using timers_ok_fire by simp
next
  case (Settle p)
  then show "timers_ok s \<Longrightarrow> ?thesis" using timers_ok_settle by simp
next
  case CallClose
  then show "timers_ok s \<Longrightarrow> ?thesis" using timers_ok_close by simp
next
  case (CallAddFunc name func)
  then show "timers_ok s \<Longrightarrow> ?thesis" by (simp add: addFunc_def timers_ok_def)
qed

section \<open>The reconnect lock and the retry budget\<close>

lemma pending_hb:
  "timers_ok s \<Longrightarrow>
   pending c (heartCheck_start E (heartCheck_reset s)) =
     (if c = ReconnectCb then pending ReconnectCb s
      else if c = ProbeCb then [Timer (next_timer s) (heartCheckTime E) ProbeCb] else [])"
  using reset_timers [of s]
  by (auto simp: pending_def filter_empty_conv simp del: heartCheck_reset_sel(1))

lemma pending_reconnect:
  "pending ReconnectCb (reconnect s) =
     (if lockReconnect s \<or> 10 \<le> retry s then pending ReconnectCb s
      else pending ReconnectCb s @ [Timer (next_timer s) 2000 ReconnectCb])"
  by (simp add: pending_def)

lemma same_tid:
  assumes "timers_ok s" and "t \<in> set (timers s)" and "u \<in> set (timers s)" and "tid u = tid t"
  shows "u = t"
proof -
  from assms(1) have "inj_on tid (set (timers s))"
    by (simp add: timers_ok_def timers_ok_at_def distinct_map)
  with assms(2-4) show ?thesis by (auto dest: inj_onD)
qed

lemma fired_pending:
  assumes "timers_ok s" and "t \<in> set (timers s)"
  shows "filter (\<lambda>u. cb u = c) (filter (\<lambda>u. tid u \<noteq> tid t) (timers s)) =
         (if cb t = c then remove1 t (pending c s) else pending c s)"
proof -
  have d: "distinct (timers s)"
    using assms(1) by (simp add: timers_ok_def timers_ok_at_def distinct_map)
  have "filter (\<lambda>u. tid u \<noteq> tid t) (timers s) = filter (\<lambda>u. t \<noteq> u) (timers s)"
    using same_tid [OF assms] by (auto intro: filter_cong)
  then have "filter (\<lambda>u. tid u \<noteq> tid t) (timers s) = remove1 t (timers s)"
    using d by (simp add: distinct_remove1_removeAll removeAll_filter_not_eq)
  moreover have "filter (\<lambda>u. cb u = c) (remove1 t (timers s)) =
      (if cb t = c then remove1 t (pending c s) else pending c s)"
    by (simp add: pending_def filter_remove1)
  ultimately show ?thesis by simp
qed

lemma lock_ok_reconnect: "lock_ok s \<Longrightarrow> lock_ok (reconnect s)"
  by (auto simp: lock_ok_def pending_reconnect)

lemma budget_ok_reconnect: "budget_ok s \<Longrightarrow> budget_ok (reconnect s)"
  by (auto simp: budget_ok_def pending_reconnect)

lemma pending_createWebSocket:
  "lockReconnect s \<Longrightarrow> pending ReconnectCb (createWebSocket E s) = pending ReconnectCb s"
  using createWebSocket_cases [of E s] by (auto simp: pending_def)

lemma retry_createWebSocket: "retry s \<le> retry (createWebSocket E s)"
  using createWebSocket_cases [of E s] by auto

lemma lb_cong:
  assumes "pending ReconnectCb s' = pending ReconnectCb s"
    and "lockReconnect s' = lockReconnect s" and "retry s' = retry s"
    and "attempts s' = attempts s"
  shows "lock_ok s' = lock_ok s" and "budget_ok s' = budget_ok s"
  using assms by (simp_all add: lock_ok_def budget_ok_def)

lemma lb_ready [simp]:
  "lock_ok (s\<lparr>ready := r\<rparr>) = lock_ok s" "budget_ok (s\<lparr>ready := r\<rparr>) = budget_ok s"
  by (simp_all add: lock_ok_def budget_ok_def pending_def)

lemma lb_onopen:
  assumes "timers_ok s"
  shows "lock_ok (onopen E s) = lock_ok s" and "budget_ok (onopen E s) = budget_ok s"
proof -
  have "pending ReconnectCb (onopen E s) = pending ReconnectCb s"
    using pending_hb [OF assms, of ReconnectCb E] by (simp add: onopen_eq pending_def)
  then show "lock_ok (onopen E s) = lock_ok s" and "budget_ok (onopen E s) = budget_ok s"
    by (simp_all add: lock_ok_def budget_ok_def onopen_eq)
qed

lemma lb_onmessage:
  assumes "timers_ok s"
  shows "lock_ok (onmessage E data s) = lock_ok s"
    and "budget_ok (onmessage E data s) = budget_ok s"
proof -
  have "pending ReconnectCb (onmessage E data s) = pending ReconnectCb s"
    using pending_hb [OF assms, of ReconnectCb E] by (simp add: pending_def)
  then show "lock_ok (onmessage E data s) = lock_ok s"
    and "budget_ok (onmessage E data s) = budget_ok s"
    by (simp_all add: lock_ok_def budget_ok_def)
qed

lemma lb_fire:
  assumes "timers_ok s" and "lock_ok s" and "budget_ok s"
  shows "lock_ok (fire E h s) \<and> budget_ok (fire E h s)"
proof (cases "find (\<lambda>t. tid t = h) (timers s)")
  case None
  then show ?thesis using assms by (simp add: fire_def)
next
  case (Some t)
  let ?s = "s\<lparr>timers := filter (\<lambda>t. tid t \<noteq> h) (timers s)\<rparr>"
  from Some have t: "t \<in> set (timers s)" "tid t = h"
    by (auto simp: find_Some_iff)
  have p: "pending c ?s = (if cb t = c then remove1 t (pending c s) else pending c s)" for c
    using fired_pending [OF assms(1) t(1), of c] t(2) by (simp add: pending_def)
  show ?thesis
  proof (cases "cb t")
    case ReconnectCb
    then have "t \<in> set (pending ReconnectCb s)"
      using t(1) by (simp add: pending_def)
    then have len: "length (pending ReconnectCb s) = 1" and lock: "lockReconnect s"
      using assms(2) by (auto simp: lock_ok_def split: if_splits)
    have "length (remove1 t (pending ReconnectCb s)) = 0"
      using len \<open>t \<in> set (pending ReconnectCb s)\<close> by (simp add: length_remove1)
    then have e: "pending ReconnectCb ?s = []"
      using p [of ReconnectCb] ReconnectCb by simp
    have "pending ReconnectCb (createWebSocket E ?s) = []"
      using pending_createWebSocket [of ?s E] lock e by simp
    then have pe: "pending ReconnectCb (reconnect_cb E ?s) = []"
      by (simp add: reconnect_cb_def pending_def)
    have "retry s \<le> retry (reconnect_cb E ?s)"
      using retry_createWebSocket [of ?s E] by (simp add: reconnect_cb_def)
    moreover have "attempts (reconnect_cb E ?s) = attempts s + 1"
      by (simp add: reconnect_cb_def)
    moreover have "\<not> lockReconnect (reconnect_cb E ?s)"
      by (simp add: reconnect_cb_def)
    ultimately have "lock_ok (reconnect_cb E ?s) \<and> budget_ok (reconnect_cb E ?s)"
      using pe assms(3) len by (auto simp: lock_ok_def budget_ok_def)
    then show ?thesis
      using Some ReconnectCb by (simp add: fire_def run_timer_def)
  next
    case ProbeCb
    have "pending ReconnectCb (probe_cb E ?s) = pending ReconnectCb s"
      using p [of ReconnectCb] ProbeCb by (simp add: probe_cb_eq pending_def)
    then have "lock_ok (probe_cb E ?s) = lock_ok s" "budget_ok (probe_cb E ?s) = budget_ok s"
      by (simp_all add: lock_ok_def budget_ok_def probe_cb_eq)
    then show ?thesis
      using Some ProbeCb assms by (simp add: fire_def run_timer_def)
  next
    case ServerTimeoutCb
    have "pending ReconnectCb (server_timeout_cb ?s) = pending ReconnectCb s"
      using p [of ReconnectCb] ServerTimeoutCb
      by (simp add: server_timeout_cb_eq pending_def split: option.splits)
    then have "lock_ok (server_timeout_cb ?s) = lock_ok s"
      "budget_ok (server_timeout_cb ?s) = budget_ok s"
      by (simp_all add: lock_ok_def budget_ok_def server_timeout_cb_eq split: option.splits)
    then show ?thesis
      using Some ServerTimeoutCb assms by (simp add: fire_def run_timer_def)
  qed
qed

lemma lb_settle:
  "lock_ok (settle E p s) = lock_ok s" "budget_ok (settle E p s) = budget_ok s"
  by (simp_all add: settle_def then_cb_eq lock_ok_def budget_ok_def pending_def
      split: option.splits outcome.splits)

lemma lb_close:
  "lock_ok (close s) = lock_ok s" "budget_ok (close s) = budget_ok s"
  by (simp_all add: close_eq lock_ok_def budget_ok_def pending_def split: option.splits)

lemma lb_addFunc:
  "lock_ok (addFunc n f s) = lock_ok s" "budget_ok (addFunc n f s) = budget_ok s"
  by (simp_all add: addFunc_def lock_ok_def budget_ok_def pending_def)

lemma lb_step:
  assumes "timers_ok s" and "lock_ok s" and "budget_ok s"
  shows "lock_ok (step E e s) \<and> budget_ok (step E e s)"
proof (cases e)
  case (WsOpen k)
  then show ?thesis
    using assms lb_onopen [of "s\<lparr>ready := (ready s)(k := OPEN)\<rparr>" E] by simp
next
  case (WsMessage k data)
  then show ?thesis using assms lb_onmessage [of s E data] by simp
next
  case (WsError k)
  then show ?thesis
    using assms lock_ok_reconnect [of "s\<lparr>ready := (ready s)(k := CLOSED)\<rparr>"]
      budget_ok_reconnect [of "s\<lparr>ready := (ready s)(k := CLOSED)\<rparr>"]
    by (simp add: onerror_def)
next
  case (WsClose k)
  then show ?thesis
    using assms lock_ok_reconnect [of "s\<lparr>ready := (ready s)(k := CLOSED)\<rparr>"]
      budget_ok_reconnect [of "s\<lparr>ready := (ready s)(k := CLOSED)\<rparr>"]
    by (simp add: onclose_def)
next
  case (Fire h)
  then show ?thesis using lb_fire [OF assms] by simp
next
  case (Settle p)
  then show ?thesis using assms by (simp add: lb_settle)
next
  case CallClose
  then show ?thesis using assms by (simp add: lb_close)
next
  case (CallAddFunc name func)
  then show ?thesis using assms by (simp add: lb_addFunc)
qed

section \<open>The transport handle and the pending promises\<close>

lemma ws_ok_iff: "ws_ok s = (\<forall>k. ws s = Some k \<longrightarrow> k < nsockets s)"
  by (simp add: ws_ok_def split: option.splits)

lemma ws_ok_reconnect [simp]: "ws_ok (reconnect s) = ws_ok s"
  by (simp add: ws_ok_iff)

lemma ws_ok_createWebSocket: "ws_ok s \<Longrightarrow> ws_ok (createWebSocket E s)"
  using createWebSocket_cases [of E s]
  by (auto simp: ws_ok_iff split: option.splits)

lemma ws_ok_fire: "ws_ok s \<Longrightarrow> ws_ok (fire E h s)"
proof (cases "find (\<lambda>t. tid t = h) (timers s)")
  case None
  then show "ws_ok s \<Longrightarrow> ?thesis" by (simp add: fire_def)
next
  case (Some t)
  let ?s = "s\<lparr>timers := filter (\<lambda>t. tid t \<noteq> h) (timers s)\<rparr>"
  assume "ws_ok s"
  then have ok: "ws_ok ?s" by (simp add: ws_ok_iff)
  show ?thesis
  proof (cases "cb t")
    case ReconnectCb
    then show ?thesis
      using Some ws_ok_createWebSocket [OF ok, of E]
      by (simp add: fire_def run_timer_def reconnect_cb_def ws_ok_iff)
  next
    case ProbeCb
    then show ?thesis
      using Some ok by (simp add: fire_def run_timer_def probe_cb_eq ws_ok_iff)
  next
    case ServerTimeoutCb
    then show ?thesis
      using Some ok
      by (simp add: fire_def run_timer_def server_timeout_cb_eq ws_ok_iff split: option.splits)
  qed
qed

lemma ws_ok_step: "ws_ok s \<Longrightarrow> ws_ok (step E e s)"
proof (cases e)
  case (Fire h)
  then show "ws_ok s \<Longrightarrow> ?thesis" using ws_ok_fire by simp
next
  case (Settle p)
  then show "ws_ok s \<Longrightarrow> ?thesis"
    by (simp add: settle_def then_cb_eq ws_ok_iff split: option.splits outcome.splits)
next
  case CallClose
  then show "ws_ok s \<Longrightarrow> ?thesis"
    by (simp add: close_eq ws_ok_iff split: option.splits)
qed (simp_all add: ws_ok_iff onopen_eq onerror_def onclose_def addFunc_def)

lemma promises_onmessage:
  "promises_ok s \<Longrightarrow> promises_ok (onmessage E data s)"
  by (auto simp: promises_ok_def onmessage_def Let_def invoke_eq list_all_iff
      split: option.splits)

lemma promises_ok_fire: "promises_ok s \<Longrightarrow> promises_ok (fire E h s)"
proof (cases "find (\<lambda>t. tid t = h) (timers s)")
  case None
  then show "promises_ok s \<Longrightarrow> ?thesis" by (simp add: fire_def)
next
  case (Some t)
  then show "promises_ok s \<Longrightarrow> ?thesis"
    by (cases "cb t")
       (simp_all add: fire_def run_timer_def reconnect_cb_def probe_cb_eq server_timeout_cb_eq
          promises_ok_def split: option.splits)
qed

lemma promises_ok_step: "promises_ok s \<Longrightarrow> promises_ok (step E e s)"
proof (cases e)
  case (WsMessage k data)
  then show "promises_ok s \<Longrightarrow> ?thesis" using promises_onmessage by simp
next
  case (Fire h)
  then show "promises_ok s \<Longrightarrow> ?thesis" using promises_ok_fire by simp
next
  case (Settle p)
  then show "promises_ok s \<Longrightarrow> ?thesis"
    by (auto simp: settle_def then_cb_eq promises_ok_def list_all_iff
        split: option.splits outcome.splits)
next
  case CallClose
  then show "promises_ok s \<Longrightarrow> ?thesis"
    by (simp add: close_eq promises_ok_def split: option.splits)
qed (simp_all add: promises_ok_def onopen_eq onerror_def onclose_def addFunc_def)

section \<open>Every reachable state satisfies the invariants\<close>

lemma inv_step: "inv s \<Longrightarrow> inv (step E e s)"
  using timers_ok_step [of s E e] lb_step [of s E e] ws_ok_step [of s E e]
    promises_ok_step [of s E e]
  by (simp add: inv_def)

lemma inv_run: "inv s \<Longrightarrow> inv (run E es s)"
  by (induction es arbitrary: s) (simp_all add: inv_step)

lemma inv_WebSocketManager: "inv (WebSocketManager E fm)"
proof -
  let ?s0 = "\<lparr>lockReconnect = False, retry = 0, ws = None, isClosed = False, funcMap = fm,
        timeoutObj = None, serverTimeoutObj = None,
        nsockets = 0, ready = (\<lambda>k. CLOSED), timers = [], next_timer = 0,
        promises = [], next_promise = 0, sent = [], calls = [], uncaught = [],
        attempts = 0\<rparr>"
  have t: "timers_ok ?s0"
    by (simp add: timers_ok_def timers_ok_at_def tracked_def handle_ok_def)
  have w: "ws_ok ?s0" by (simp add: ws_ok_iff)
  have "timers_ok (createWebSocket E ?s0)"
    by (rule timers_ok_createWebSocket [OF t])
  moreover have "ws_ok (createWebSocket E ?s0)"
    by (rule ws_ok_createWebSocket [OF w])
  moreover have "promises_ok (createWebSocket E ?s0)"
    by (simp add: promises_ok_def)
  moreover have "lock_ok (createWebSocket E ?s0) \<and> budget_ok (createWebSocket E ?s0)"
    using createWebSocket_cases [of E ?s0]
    by (auto simp: lock_ok_def budget_ok_def pending_def)
  ultimately show ?thesis
    by (simp add: inv_def WebSocketManager_def)
qed

lemma inv_reachable: "inv (run E es (WebSocketManager E fm))"
  by (rule inv_run [OF inv_WebSocketManager])

section \<open>Counters only grow\<close>

lemma fire_cases:
  "fire E h s = s \<or>
   (\<exists>t. t \<in> set (timers s) \<and> tid t = h \<and>
        fire E h s = run_timer E (cb t) (s\<lparr>timers := filter (\<lambda>t. tid t \<noteq> h) (timers s)\<rparr>))"
proof (cases "find (\<lambda>t. tid t = h) (timers s)")
  case None
  then show ?thesis by (simp add: fire_def)
next
  case (Some t)
  then have "t \<in> set (timers s)" "tid t = h"
    by (auto simp: find_Some_iff)
  then show ?thesis using Some by (auto simp: fire_def)
qed

lemma createWebSocket_nsockets: "nsockets s \<le> nsockets (createWebSocket E s)"
  using createWebSocket_cases [of E s] by auto

lemma run_timer_mono:
  "retry s \<le> retry (run_timer E c s)" "attempts s \<le> attempts (run_timer E c s)"
  "nsockets s \<le> nsockets (run_timer E c s)"
  using retry_createWebSocket [of s E] createWebSocket_nsockets [of s E]
  by (cases c; simp add: run_timer_def reconnect_cb_def probe_cb_eq server_timeout_cb_eq
      split: option.splits)+

lemma fire_mono:
  "retry s \<le> retry (fire E h s)" "attempts s \<le> attempts (fire E h s)"
  "nsockets s \<le> nsockets (fire E h s)"
  using fire_cases [of E h s]
    run_timer_mono [of "s\<lparr>timers := filter (\<lambda>t. tid t \<noteq> h) (timers s)\<rparr>" E]
  by auto

lemma settle_sel [simp]:
  "retry (settle E p s) = retry s" "attempts (settle E p s) = attempts s"
  "nsockets (settle E p s) = nsockets s" "timers (settle E p s) = timers s"
  "lockReconnect (settle E p s) = lockReconnect s" "ws (settle E p s) = ws s"
  "ready (settle E p s) = ready s" "funcMap (settle E p s) = funcMap s"
  "next_timer (settle E p s) = next_timer s" "next_promise (settle E p s) = next_promise s"
  "calls (settle E p s) = calls s" "isClosed (settle E p s) = isClosed s"
  "timeoutObj (settle E p s) = timeoutObj s" "serverTimeoutObj (settle E p s) = serverTimeoutObj s"
  by (simp_all add: settle_def then_cb_eq split: option.splits outcome.splits)

lemma close_sel [simp]:
  "retry (close s) = retry s" "attempts (close s) = attempts s"
  "nsockets (close s) = nsockets s" "timers (close s) = timers s"
  "lockReconnect (close s) = lockReconnect s" "ws (close s) = None"
  "isClosed (close s) = True" "funcMap (close s) = funcMap s"
  "next_timer (close s) = next_timer s" "next_promise (close s) = next_promise s"
  "promises (close s) = promises s" "sent (close s) = sent s" "calls (close s) = calls s"
  "uncaught (close s) = uncaught s"
  "timeoutObj (close s) = timeoutObj s" "serverTimeoutObj (close s) = serverTimeoutObj s"
  by (simp_all add: close_eq split: option.splits)

lemma step_mono:
  "retry s \<le> retry (step E e s)" "attempts s \<le> attempts (step E e s)"
  "nsockets s \<le> nsockets (step E e s)"
  using fire_mono [of s E]
  by (cases e; simp add: onopen_eq onerror_def onclose_def addFunc_def)+

lemma run_mono:
  "retry s \<le> retry (run E es s)" "attempts s \<le> attempts (run E es s)"
  "nsockets s \<le> nsockets (run E es s)"
proof (induction es arbitrary: s)
  case Nil
  { case 1 show ?case by simp next
    case 2 show ?case by simp next
    case 3 show ?case by simp }
next
  case (Cons e es)
  { case 1 show ?case using Cons.IH(1) [of "step E e s"] step_mono(1) [of s E e] by simp next
    case 2 show ?case using Cons.IH(2) [of "step E e s"] step_mono(2) [of s E e] by simp next
    case 3 show ?case using Cons.IH(3) [of "step E e s"] step_mono(3) [of s E e] by simp }
qed

lemma run_append: "run E (es @ es') s = run E es' (run E es s)"
  by (induction es arbitrary: s) simp_all

section \<open>No socket without a call of createWebSocket\<close>

lemma step_same_sockets:
  assumes "attempts (step E e s) = attempts s"
  shows "nsockets (step E e s) = nsockets s"
proof (cases e)
  case (Fire h)
  let ?s = "s\<lparr>timers := filter (\<lambda>t. tid t \<noteq> h) (timers s)\<rparr>"
  from fire_cases [of E h s] show ?thesis
  proof
    assume "fire E h s = s"
    then show ?thesis using Fire by simp
  next
    assume "\<exists>t. t \<in> set (timers s) \<and> tid t = h \<and> fire E h s = run_timer E (cb t) ?s"
    then obtain t where t: "fire E h s = run_timer E (cb t) ?s" by blast
    show ?thesis
    proof (cases "cb t")
      case ReconnectCb
      then have "attempts (fire E h s) = attempts s + 1"
        using t by (simp add: run_timer_def reconnect_cb_def)
      then show ?thesis using assms Fire by simp
    next
      case ProbeCb
      then show ?thesis using t Fire by (simp add: run_timer_def probe_cb_eq)
    next
      case ServerTimeoutCb
      then show ?thesis
        using t Fire by (simp add: run_timer_def server_timeout_cb_eq split: option.splits)
    qed
  qed
qed (simp_all add: onopen_eq onerror_def onclose_def addFunc_def)

lemma run_same_sockets:
  "attempts (run E es s) = attempts s \<Longrightarrow> nsockets (run E es s) = nsockets s"
proof (induction es arbitrary: s)
  case Nil
  then show ?case by simp
next
  case (Cons e es)
  have "attempts s \<le> attempts (step E e s)"
    by (rule step_mono)
  moreover have "attempts (step E e s) \<le> attempts (run E es (step E e s))"
    by (rule run_mono)
  ultimately have a: "attempts (step E e s) = attempts s"
    and b: "attempts (run E es (step E e s)) = attempts (step E e s)"
    using Cons.prems by simp_all
  show ?case
    using Cons.IH [OF b] step_same_sockets [OF a] by simp
qed

lemma failure_signal_exhausted:
  assumes "10 \<le> retry s"
  shows "timers (step E (WsError k) s) = timers s" and "timers (step E (WsClose k) s) = timers s"
    and "uncaught (step E (WsError k) s) = uncaught s"
    and "uncaught (step E (WsClose k) s) = uncaught s"
    and "sent (step E (WsError k) s) = sent s" and "sent (step E (WsClose k) s) = sent s"
  using assms by (simp_all add: onerror_def onclose_def)

section \<open>Firing a pending timeout\<close>

lemma fire_pending_timer:
  assumes "timers_ok s" and "t \<in> set (timers s)"
  shows "fire E (tid t) s =
    run_timer E (cb t) (s\<lparr>timers := filter (\<lambda>u. tid u \<noteq> tid t) (timers s)\<rparr>)"
proof (cases "find (\<lambda>u. tid u = tid t) (timers s)")
  case None
  then show ?thesis using assms(2) by (auto simp: find_None_iff)
next
  case (Some u)
  then have "u \<in> set (timers s)" "tid u = tid t"
    by (auto simp: find_Some_iff)
  then have "u = t" by (rule same_tid [OF assms])
  then show ?thesis using Some by (simp add: fire_def)
qed

lemma fire_reconnect_timer:
  assumes "inv s" and "t \<in> set (pending ReconnectCb s)"
  shows "attempts (fire E (tid t) s) = attempts s + 1"
    and "pending ReconnectCb (fire E (tid t) s) = []"
    and "\<not> lockReconnect (fire E (tid t) s)"
proof -
  let ?s = "s\<lparr>timers := filter (\<lambda>u. tid u \<noteq> tid t) (timers s)\<rparr>"
  from assms have ok: "timers_ok s" and lk: "lock_ok s" and bg: "budget_ok s"
    by (simp_all add: inv_def)
  from assms(2) have t: "t \<in> set (timers s)" "cb t = ReconnectCb"
    by (simp_all add: pending_def)
  have f: "fire E (tid t) s = reconnect_cb E ?s"
    using fire_pending_timer [OF ok t(1), of E] t(2) by (simp add: run_timer_def)
  show "attempts (fire E (tid t) s) = attempts s + 1"
    by (simp add: f reconnect_cb_def)
  show "\<not> lockReconnect (fire E (tid t) s)"
    by (simp add: f reconnect_cb_def)
  have "lock_ok (fire E (tid t) s)"
    using lb_fire [OF ok lk bg, of E "tid t"] by simp
  then show "pending ReconnectCb (fire E (tid t) s) = []"
    using \<open>\<not> lockReconnect (fire E (tid t) s)\<close> by (simp add: lock_ok_def)
qed

section \<open>The heartbeat cycle\<close>

lemma hb_timers:
  "timers_ok s \<Longrightarrow>
   timers (heartCheck_start E (heartCheck_reset s)) =
     pending ReconnectCb s @ [Timer (next_timer s) (heartCheckTime E) ProbeCb]"
  using reset_timers [of s] by (simp del: heartCheck_reset_sel(1))

lemma pending_fresh:
  assumes "timers_ok s" and "next_timer s \<le> n"
  shows "filter (\<lambda>u. tid u \<noteq> n) (pending c s) = pending c s"
proof -
  have "tid u < next_timer s" if "u \<in> set (timers s)" for u
    using assms(1) that by (simp add: timers_ok_def timers_ok_at_iff)
  then have "\<forall>u\<in>set (pending c s). tid u \<noteq> n"
    using assms(2) by (fastforce simp: pending_def)
  then show ?thesis by (simp add: filter_id_conv)
qed

lemma no_heartbeat_in_reconnects:
  "filter (\<lambda>t. cb t \<noteq> ReconnectCb) (pending ReconnectCb s) = []"
  by (simp add: pending_def)

text \<open>A frame arrives; then the probe timeout fires; then the force-close timeout fires.\<close>

lemma heartbeat_after_message:
  assumes "timers_ok s"
  shows "timers (onmessage E frame s) =
      pending ReconnectCb s @ [Timer (next_timer s) (heartCheckTime E) ProbeCb]"
    and "heartbeat_timers (onmessage E frame s) =
      [Timer (next_timer s) (heartCheckTime E) ProbeCb]"
  using hb_timers [OF assms, of E]
  by (simp_all add: heartbeat_timers_def no_heartbeat_in_reconnects)


lemma probe_fires:
  assumes "timers_ok s0" and "timers_ok s"
    and "timers s = pending ReconnectCb s0 @ [Timer n d ProbeCb]"
    and "next_timer s0 \<le> n" and "ws s = Some j" and "ready s j = OPEN"
  shows "sent (fire E n s) = sent s @ [(j, ''ping'')]"
    and "timers (fire E n s) =
      pending ReconnectCb s0 @ [Timer (next_timer s) (heartCheckTime E) ServerTimeoutCb]"
    and "ws (fire E n s) = ws s" and "ready (fire E n s) = ready s"
    and "next_timer (fire E n s) = next_timer s + 1"
    and "uncaught (fire E n s) = uncaught s"
proof -
  let ?t = "Timer n d ProbeCb"
  let ?s = "s\<lparr>timers := filter (\<lambda>u. tid u \<noteq> tid ?t) (timers s)\<rparr>"
  have "?t \<in> set (timers s)" using assms(3) by simp
  then have f: "fire E n s = probe_cb E ?s"
    using fire_pending_timer [OF assms(2), of ?t E] by (simp add: run_timer_def)
  have r: "timers ?s = pending ReconnectCb s0"
    using pending_fresh [OF assms(1,4), of ReconnectCb] assms(3) by simp
  have e: "send_error ?s = []" "transmits ?s ''ping'' = [(j, ''ping'')]"
    using assms(5,6) by (simp_all add: send_error_def transmits_def)
  show "sent (fire E n s) = sent s @ [(j, ''ping'')]"
    and "timers (fire E n s) =
      pending ReconnectCb s0 @ [Timer (next_timer s) (heartCheckTime E) ServerTimeoutCb]"
    and "ws (fire E n s) = ws s" and "ready (fire E n s) = ready s"
    and "next_timer (fire E n s) = next_timer s + 1"
    and "uncaught (fire E n s) = uncaught s"
    using e r by (simp_all add: f probe_cb_eq)
qed

lemma server_timeout_fires:
  assumes "timers_ok s0" and "timers_ok s"
    and "timers s = pending ReconnectCb s0 @ [Timer n d ServerTimeoutCb]"
    and "next_timer s0 \<le> n" and "ws s = Some j" and "ready s j = OPEN"
  shows "ready (fire E n s) = (ready s)(j := CLOSING)"
    and "timers (fire E n s) = pending ReconnectCb s0"
    and "sent (fire E n s) = sent s" and "uncaught (fire E n s) = uncaught s"
proof -
  let ?t = "Timer n d ServerTimeoutCb"
  let ?s = "s\<lparr>timers := filter (\<lambda>u. tid u \<noteq> tid ?t) (timers s)\<rparr>"
  have "?t \<in> set (timers s)" using assms(3) by simp
  then have f: "fire E n s = server_timeout_cb ?s"
    using fire_pending_timer [OF assms(2), of ?t E] by (simp add: run_timer_def)
  have r: "timers ?s = pending ReconnectCb s0"
    using pending_fresh [OF assms(1,4), of ReconnectCb] assms(3) by simp
  show "ready (fire E n s) = (ready s)(j := CLOSING)"
    and "timers (fire E n s) = pending ReconnectCb s0"
    and "sent (fire E n s) = sent s" and "uncaught (fire E n s) = uncaught s"
    using r assms(5,6) by (simp_all add: f server_timeout_cb_eq)
qed

section \<open>The frames an event sends\<close>






section \<open>The promise of a handler call\<close>

lemma run_timer_promises [simp]:
  "promises (run_timer E c s) = promises s" "next_promise (run_timer E c s) = next_promise s"
  by (cases c; simp add: run_timer_def reconnect_cb_def probe_cb_eq server_timeout_cb_eq
      split: option.splits)+

lemma fire_promises [simp]:
  "promises (fire E h s) = promises s" "next_promise (fire E h s) = next_promise s"
  using fire_cases [of E h s] by auto

lemma map_of_filter_other:
  "p \<noteq> q \<Longrightarrow> map_of (filter (\<lambda>z. fst z \<noteq> q) xs) p = map_of xs p"
  by (induction xs) auto

lemma map_of_filter_same: "map_of (filter (\<lambda>z. fst z \<noteq> p) xs) p = None"
  by (induction xs) auto

lemma map_of_fresh:
  "list_all (\<lambda>q. fst q < (n::nat)) xs \<Longrightarrow> n \<le> p \<Longrightarrow> map_of xs p = None"
  by (fastforce simp: map_of_eq_None_iff list_all_iff)

lemma onmessage_promises:
  "promises (onmessage E frame s) = promises s \<and>
     next_promise (onmessage E frame s) = next_promise s \<or>
   (\<exists>d out. promises (onmessage E frame s) = promises s @ [(next_promise s, d, out)] \<and>
     next_promise (onmessage E frame s) = next_promise s + 1)"
  by (auto simp: onmessage_def Let_def invoke_eq split: option.splits)

lemma settle_promises:
  "promises (settle E q s) = promises s \<or>
   promises (settle E q s) = filter (\<lambda>z. fst z \<noteq> q) (promises s)"
  by (auto simp: settle_def then_cb_eq split: option.splits outcome.splits)

lemma next_promise_step: "next_promise s \<le> next_promise (step E e s)"
proof (cases e)
  case (WsMessage k frame)
  then show ?thesis using onmessage_promises [of E frame s] by auto
qed (simp_all add: onopen_eq onerror_def onclose_def addFunc_def)

text \<open>A pending promise stays as it is until it settles.\<close>

lemma promise_kept_step:
  assumes "map_of (promises s) p = Some x" and "e \<noteq> Settle p"
  shows "map_of (promises (step E e s)) p = Some x"
proof (cases e)
  case (WsMessage k frame)
  show ?thesis
    using assms(1) onmessage_promises [of E frame s] WsMessage
    by (auto simp: map_add_def)
next
  case (Settle q)
  then have "p \<noteq> q" using assms(2) by simp
  then show ?thesis
    using assms(1) settle_promises [of E q s] Settle by (auto simp: map_of_filter_other)
qed (use assms(1) in \<open>simp_all add: onopen_eq onerror_def onclose_def addFunc_def\<close>)

lemma promise_kept_run:
  "map_of (promises s) p = Some x \<Longrightarrow> Settle p \<notin> set es \<Longrightarrow>
   map_of (promises (run E es s)) p = Some x"
proof (induction es arbitrary: s)
  case Nil
  then show ?case by simp
next
  case (Cons e es)
  then have "map_of (promises (step E e s)) p = Some x"
    using promise_kept_step [of s p x e E] by auto
  then show ?case using Cons by simp
qed

text \<open>A promise that has settled never comes back: promise numbers are not reused.\<close>

lemma promise_gone_step:
  assumes "promises_ok s" and "p < next_promise s" and "map_of (promises s) p = None"
  shows "map_of (promises (step E e s)) p = None"
proof (cases e)
  case (WsMessage k frame)
  show ?thesis
    using assms onmessage_promises [of E frame s] WsMessage
    by (auto simp: map_add_def)
next
  case (Settle q)
  show ?thesis
  proof (cases "p = q")
    case True
    then show ?thesis
      using assms(3) settle_promises [of E q s] Settle by (auto simp: map_of_filter_same)
  next
    case False
    then show ?thesis
      using assms(3) settle_promises [of E q s] Settle by (auto simp: map_of_filter_other)
  qed
qed (use assms(3) in \<open>simp_all add: onopen_eq onerror_def onclose_def addFunc_def\<close>)

lemma promise_gone_run:
  "promises_ok s \<Longrightarrow> p < next_promise s \<Longrightarrow> map_of (promises s) p = None \<Longrightarrow>
   map_of (promises (run E es s)) p = None"
proof (induction es arbitrary: s)
  case Nil
  then show ?case by simp
next
  case (Cons e es)
  have "promises_ok (step E e s)"
    by (rule promises_ok_step [OF Cons.prems(1)])
  moreover have "p < next_promise (step E e s)"
    using Cons.prems(2) next_promise_step [of s E e] by simp
  moreover have "map_of (promises (step E e s)) p = None"
    by (rule promise_gone_step [OF Cons.prems])
  ultimately show ?case using Cons.IH by simp
qed

text \<open>A tool request whose handler is registered and returns a promise.\<close>

lemma tool_request_invoked:
  assumes "k < nsockets s" and "frame \<noteq> ''pong''" and "json_parse E frame = Some d"
    and "get_prop d ''msg_type'' = JStr ''tools''"
    and "funcMap s (property_key E (get_prop d ''func_name'')) = Some h"
    and "h (get_prop d ''params'') \<noteq> Throws"
  shows "step E (WsMessage k frame) s =
    (heartCheck_start E (heartCheck_reset s))
      \<lparr>calls := calls s @ [(property_key E (get_prop d ''func_name''), get_prop d ''params'')],
       promises := promises s @ [(next_promise s, d, h (get_prop d ''params''))],
       next_promise := next_promise s + 1\<rparr>"
proof -
  have "d \<noteq> JNull" "d \<noteq> JUndefined"
    using assms(4) by auto
  then show ?thesis
    using assms by (simp add: onmessage_def Let_def invoke_eq)
qed

lemma next_promise_run: "next_promise s \<le> next_promise (run E es s)"
proof (induction es arbitrary: s)
  case Nil
  then show ?case by simp
next
  case (Cons e es)
  show ?case
    using Cons.IH [of "step E e s"] next_promise_step [of s E e] by simp
qed

text \<open>The promise of the request is pending, with its outcome, until it settles.\<close>

lemma tool_request_pending:
  assumes "promises_ok s" and "k < nsockets s"
    and "frame \<noteq> ''pong''" and "json_parse E frame = Some d"
    and "get_prop d ''msg_type'' = JStr ''tools''"
    and "funcMap s (property_key E (get_prop d ''func_name'')) = Some h"
    and "h (get_prop d ''params'') \<noteq> Throws"
    and "Settle (next_promise s) \<notin> set es"
  shows "map_of (promises (run E es (step E (WsMessage k frame) s))) (next_promise s) =
      Some (d, h (get_prop d ''params''))"
    and "next_promise s < next_promise (run E es (step E (WsMessage k frame) s))"
    and "calls (step E (WsMessage k frame) s) =
      calls s @ [(property_key E (get_prop d ''func_name''), get_prop d ''params'')]"
    and "sent (step E (WsMessage k frame) s) = sent s"
proof -
  let ?s1 = "step E (WsMessage k frame) s"
  note eq = tool_request_invoked [OF assms(2-7)]
  have "map_of (promises s) (next_promise s) = None"
    using assms(1) by (simp add: promises_ok_def map_of_fresh)
  then have "map_of (promises ?s1) (next_promise s) = Some (d, h (get_prop d ''params''))"
    unfolding eq by (simp add: map_add_def)
  then show "map_of (promises (run E es ?s1)) (next_promise s) =
      Some (d, h (get_prop d ''params''))"
    using assms(8) by (rule promise_kept_run)
  have "next_promise ?s1 = next_promise s + 1"
    unfolding eq by simp
  then show "next_promise s < next_promise (run E es ?s1)"
    using next_promise_run [of ?s1 E es] by simp
  show "calls ?s1 =
      calls s @ [(property_key E (get_prop d ''func_name''), get_prop d ''params'')]"
    unfolding eq by simp
  show "sent ?s1 = sent s"
    unfolding eq by simp
qed

lemma settle_resolved:
  assumes "map_of (promises s) p = Some (d, Resolves v)"
  shows "sent (settle E p s) = sent s @ transmits s (json_stringify E (answerResp E d v))"
  using assms by (simp add: settle_def then_cb_eq transmits_def cong: option.case_cong)

lemma settle_rejected:
  assumes "map_of (promises s) p = Some (d, Rejects r)"
  shows "settle E p s =
    s\<lparr>promises := filter (\<lambda>q. fst q \<noteq> p) (promises s),
      uncaught := uncaught s @ [Rejection r]\<rparr>"
  using assms by (simp add: settle_def throw_def)

lemma settle_unsettled:
  assumes "map_of (promises s) p = Some (d, Unsettled)"
  shows "settle E p s = s"
  using assms by (simp add: settle_def)

lemma settle_gone:
  assumes "map_of (promises s) p = None"
  shows "settle E p s = s"
  using assms by (simp add: settle_def)

section \<open>The exhausted manager\<close>

lemma createWebSocket_ws: "ws (createWebSocket E s) = ws s \<or> has_WebSocket E"
  by (auto simp: createWebSocket_def Let_def split: option.splits)

lemma run_timer_ws: "ws (run_timer E c s) = ws s \<or> has_WebSocket E"
  using createWebSocket_ws [of E s]
  by (cases c) (auto simp: run_timer_def reconnect_cb_def probe_cb_eq server_timeout_cb_eq
      split: option.splits)

lemma fire_ws: "ws (fire E h s) = ws s \<or> has_WebSocket E"
proof -
  let ?s = "s\<lparr>timers := filter (\<lambda>t. tid t \<noteq> h) (timers s)\<rparr>"
  from fire_cases [of E h s] show ?thesis
  proof
    assume "fire E h s = s"
    then show ?thesis by simp
  next
    assume "\<exists>t. t \<in> set (timers s) \<and> tid t = h \<and> fire E h s = run_timer E (cb t) ?s"
    then obtain t where "fire E h s = run_timer E (cb t) ?s" by blast
    then show ?thesis using run_timer_ws [of E "cb t" ?s] by auto
  qed
qed

text \<open>The manager holds a transport only in a browser that has \<^verbatim>\<open>WebSocket\<close>.\<close>

lemma transport_step:
  assumes "ws s \<noteq> None \<longrightarrow> has_WebSocket E"
  shows "ws (step E e s) \<noteq> None \<longrightarrow> has_WebSocket E"
proof (cases e)
  case (Fire h)
  then show ?thesis using assms fire_ws [of E h s] by auto
qed (use assms in \<open>auto simp: onopen_eq onerror_def onclose_def addFunc_def\<close>)

lemma transport_run:
  "ws s \<noteq> None \<longrightarrow> has_WebSocket E \<Longrightarrow> ws (run E es s) \<noteq> None \<longrightarrow> has_WebSocket E"
proof (induction es arbitrary: s)
  case Nil
  then show ?case by simp
next
  case (Cons e es)
  show ?case
    using Cons.IH [OF transport_step [OF Cons.prems, of e]] by simp
qed

lemma transport_reachable:
  "ws (run E es (WebSocketManager E fm)) \<noteq> None \<longrightarrow> has_WebSocket E"
proof (rule transport_run)
  show "ws (WebSocketManager E fm) \<noteq> None \<longrightarrow> has_WebSocket E"
    unfolding WebSocketManager_def
    using createWebSocket_ws [of E] by (metis state.select_convs(3))
qed

text \<open>Once ten failure signals are counted and no reconnection is pending, no event
  makes an attempt, and the manager stays in that condition.\<close>

lemma exhausted_step:
  assumes "inv s" and "10 \<le> retry s" and "\<not> lockReconnect s"
  shows "attempts (step E e s) = attempts s" and "10 \<le> retry (step E e s)"
    and "\<not> lockReconnect (step E e s)"
proof -
  have np: "pending ReconnectCb s = []"
    using assms(1,3) by (simp add: inv_def lock_ok_def)
  have "attempts (step E e s) = attempts s \<and> \<not> lockReconnect (step E e s)"
  proof (cases e)
    case (Fire h)
    let ?s = "s\<lparr>timers := filter (\<lambda>t. tid t \<noteq> h) (timers s)\<rparr>"
    from fire_cases [of E h s] show ?thesis
    proof
      assume "fire E h s = s"
      then show ?thesis using Fire assms(3) by simp
    next
      assume "\<exists>t. t \<in> set (timers s) \<and> tid t = h \<and> fire E h s = run_timer E (cb t) ?s"
      then obtain t where t: "t \<in> set (timers s)" "fire E h s = run_timer E (cb t) ?s"
        by blast
      have "cb t \<noteq> ReconnectCb"
        using np t(1) by (auto simp: pending_def filter_empty_conv)
      then show ?thesis
        using Fire t(2) assms(3)
        by (cases "cb t")
           (simp_all add: run_timer_def probe_cb_eq server_timeout_cb_eq split: option.splits)
    qed
  qed (use assms(2,3) in \<open>simp_all add: onopen_eq onerror_def onclose_def addFunc_def\<close>)
  then show "attempts (step E e s) = attempts s" and "\<not> lockReconnect (step E e s)"
    by simp_all
  show "10 \<le> retry (step E e s)"
    using assms(2) step_mono(1) [of s E e] by simp
qed

text \<open>A manager whose status is CLOSED keeps it while no attempt is made and no socket
  opens.\<close>

lemma status_closed_iff:
  "(status E s = Inr CLOSED) =
     (ws s = None \<and> has_WebSocket E \<or> (\<exists>k. ws s = Some k \<and> ready s k = CLOSED))"
  by (auto simp: status_def split: option.splits)

lemma closed_stays_step:
  assumes "status E s = Inr CLOSED" and "ws s \<noteq> None \<longrightarrow> has_WebSocket E"
    and "attempts (step E e s) = attempts s" and "\<forall>j. e \<noteq> WsOpen j"
  shows "status E (step E e s) = Inr CLOSED"
proof (cases e)
  case (WsOpen j)
  then show ?thesis using assms(4) by simp
next
  case (Fire h)
  let ?s = "s\<lparr>timers := filter (\<lambda>t. tid t \<noteq> h) (timers s)\<rparr>"
  from fire_cases [of E h s] show ?thesis
  proof
    assume "fire E h s = s"
    then show ?thesis using Fire assms(1) by simp
  next
    assume "\<exists>t. t \<in> set (timers s) \<and> tid t = h \<and> fire E h s = run_timer E (cb t) ?s"
    then obtain t where t: "fire E h s = run_timer E (cb t) ?s" by blast
    show ?thesis
    proof (cases "cb t")
      case ReconnectCb
      then have "attempts (fire E h s) = attempts s + 1"
        using t by (simp add: run_timer_def reconnect_cb_def)
      then show ?thesis using assms(3) Fire by simp
    next
      case ProbeCb
      then show ?thesis
        using t Fire assms(1) by (simp add: run_timer_def probe_cb_eq status_closed_iff)
    next
      case ServerTimeoutCb
      then show ?thesis
        using t Fire assms(1)
        by (auto simp: run_timer_def server_timeout_cb_eq status_closed_iff)
    qed
  qed
next
  case CallClose
  then show ?thesis
    using assms(1,2) by (auto simp: status_closed_iff)
qed (use assms(1) in
    \<open>auto simp: status_closed_iff onerror_def onclose_def addFunc_def\<close>)

lemma exhausted_run:
  assumes "inv s" and "10 \<le> retry s" and "\<not> lockReconnect s"
    and "ws s \<noteq> None \<longrightarrow> has_WebSocket E"
  shows "attempts (run E es s) = attempts s \<and> 10 \<le> retry (run E es s) \<and>
    \<not> lockReconnect (run E es s) \<and>
    (status E s = Inr CLOSED \<and> (\<forall>j. WsOpen j \<notin> set es) \<longrightarrow>
       status E (run E es s) = Inr CLOSED)"
  using assms
proof (induction es arbitrary: s)
  case Nil
  then show ?case by simp
next
  case (Cons e es)
  note x = exhausted_step [OF Cons.prems(1-3), of E e]
  have i: "inv (step E e s)" by (rule inv_step [OF Cons.prems(1)])
  have w: "ws (step E e s) \<noteq> None \<longrightarrow> has_WebSocket E"
    by (rule transport_step [OF Cons.prems(4)])
  note ih = Cons.IH [OF i x(2) x(3) w]
  have c: "status E (step E e s) = Inr CLOSED"
    if "status E s = Inr CLOSED" and "\<forall>j. WsOpen j \<notin> set (e # es)"
    using closed_stays_step [OF that(1) Cons.prems(4) x(1)] that(2) by auto
  show ?case
    using ih x(1) c by auto
qed

section \<open>A released transport\<close>

lemma transmits_ws:
  "transmits s f = [] \<or> (\<exists>j. ws s = Some j \<and> transmits s f = [(j, f)])"
  by (simp add: transmits_def split: option.splits)

lemma transmits_released:
  "ws s \<noteq> Some k \<Longrightarrow> filter (\<lambda>x. fst x = k) (transmits s f) = []"
  using transmits_ws [of s f] by auto

text \<open>A socket the manager does not hold, among those constructed: the manager never
  holds it again, no frame is sent on it, and no timeout changes its ready state.\<close>

lemma released_run_timer:
  assumes "ws s \<noteq> Some k" and "k < nsockets s"
  shows "ws (run_timer E c s) \<noteq> Some k" and "k < nsockets (run_timer E c s)"
    and "filter (\<lambda>x. fst x = k) (sent (run_timer E c s)) = filter (\<lambda>x. fst x = k) (sent s)"
    and "ready (run_timer E c s) k = ready s k"
proof -
  have "ws (run_timer E c s) \<noteq> Some k \<and> k < nsockets (run_timer E c s) \<and>
    filter (\<lambda>x. fst x = k) (sent (run_timer E c s)) = filter (\<lambda>x. fst x = k) (sent s) \<and>
    ready (run_timer E c s) k = ready s k"
  proof (cases c)
    case ReconnectCb
    then show ?thesis
      using assms createWebSocket_cases [of E s]
      by (auto simp: run_timer_def reconnect_cb_def)
  next
    case ProbeCb
    then show ?thesis
      using assms transmits_released [OF assms(1), of "''ping''"]
      by (simp add: run_timer_def probe_cb_eq)
  next
    case ServerTimeoutCb
    then show ?thesis
      using assms by (auto simp: run_timer_def server_timeout_cb_eq split: option.splits)
  qed
  then show "ws (run_timer E c s) \<noteq> Some k" and "k < nsockets (run_timer E c s)"
    and "filter (\<lambda>x. fst x = k) (sent (run_timer E c s)) = filter (\<lambda>x. fst x = k) (sent s)"
    and "ready (run_timer E c s) k = ready s k"
    by simp_all
qed

lemma released_fire:
  assumes "ws s \<noteq> Some k" and "k < nsockets s"
  shows "ws (fire E h s) \<noteq> Some k" and "k < nsockets (fire E h s)"
    and "filter (\<lambda>x. fst x = k) (sent (fire E h s)) = filter (\<lambda>x. fst x = k) (sent s)"
    and "ready (fire E h s) k = ready s k"
proof -
  let ?s = "s\<lparr>timers := filter (\<lambda>t. tid t \<noteq> h) (timers s)\<rparr>"
  have a: "ws ?s \<noteq> Some k" "k < nsockets ?s" using assms by simp_all
  have "ws (fire E h s) \<noteq> Some k \<and> k < nsockets (fire E h s) \<and>
    filter (\<lambda>x. fst x = k) (sent (fire E h s)) = filter (\<lambda>x. fst x = k) (sent s) \<and>
    ready (fire E h s) k = ready s k"
    using fire_cases [of E h s]
  proof
    assume "fire E h s = s"
    then show ?thesis using assms by simp
  next
    assume "\<exists>t. t \<in> set (timers s) \<and> tid t = h \<and> fire E h s = run_timer E (cb t) ?s"
    then obtain t where "fire E h s = run_timer E (cb t) ?s" by blast
    then show ?thesis using released_run_timer [OF a, of E "cb t"] by simp
  qed
  then show "ws (fire E h s) \<noteq> Some k" and "k < nsockets (fire E h s)"
    and "filter (\<lambda>x. fst x = k) (sent (fire E h s)) = filter (\<lambda>x. fst x = k) (sent s)"
    and "ready (fire E h s) k = ready s k"
    by simp_all
qed

lemma released_step:
  assumes "ws s \<noteq> Some k" and "k < nsockets s"
  shows "ws (step E e s) \<noteq> Some k" and "k < nsockets (step E e s)"
    and "filter (\<lambda>x. fst x = k) (sent (step E e s)) = filter (\<lambda>x. fst x = k) (sent s)"
proof -
  have "ws (step E e s) \<noteq> Some k \<and> k < nsockets (step E e s) \<and>
    filter (\<lambda>x. fst x = k) (sent (step E e s)) = filter (\<lambda>x. fst x = k) (sent s)"
  proof (cases e)
    case (WsOpen j)
    let ?s = "s\<lparr>ready := (ready s)(j := OPEN)\<rparr>"
    have "ws ?s \<noteq> Some k" using assms(1) by simp
    then show ?thesis
      using assms WsOpen transmits_released [of ?s k "intro_frame (agentName E)"]
      by (simp add: onopen_eq)
  next
    case (Fire h)
    then show ?thesis using released_fire [OF assms, of E h] by simp
  next
    case (Settle p)
    show ?thesis
    proof (cases "map_of (promises s) p")
      case None
      then show ?thesis using assms Settle by (simp add: settle_def)
    next
      case (Some a)
      obtain d out where a: "a = (d, out)" by (cases a)
      let ?s = "s\<lparr>promises := filter (\<lambda>q. fst q \<noteq> p) (promises s)\<rparr>"
      have "ws ?s \<noteq> Some k" using assms(1) by simp
      then show ?thesis
        using assms Settle Some a
          transmits_released [of ?s k "json_stringify E (answerResp E d v)" for v]
        by (cases out) (simp_all add: settle_def then_cb_eq)
    qed
  qed (use assms in \<open>simp_all add: onerror_def onclose_def addFunc_def\<close>)
  then show "ws (step E e s) \<noteq> Some k" and "k < nsockets (step E e s)"
    and "filter (\<lambda>x. fst x = k) (sent (step E e s)) = filter (\<lambda>x. fst x = k) (sent s)"
    by simp_all
qed

lemma released_run:
  "ws s \<noteq> Some k \<Longrightarrow> k < nsockets s \<Longrightarrow>
   ws (run E es s) \<noteq> Some k \<and> k < nsockets (run E es s) \<and>
   filter (\<lambda>x. fst x = k) (sent (run E es s)) = filter (\<lambda>x. fst x = k) (sent s)"
proof (induction es arbitrary: s)
  case Nil
  then show ?case by simp
next
  case (Cons e es)
  note r = released_step [OF Cons.prems, of E e]
  show ?case
    using Cons.IH [OF r(1,2)] r(3) by simp
qed

text \<open>A heartbeat timeout that fires while the manager holds no transport.\<close>

lemma heartbeat_fires_without_transport:
  assumes "timers_ok s" and "ws s = None" and "t \<in> set (heartbeat_timers s)"
  shows "sent (fire E (tid t) s) = sent s" and "ready (fire E (tid t) s) = ready s"
    and "uncaught (fire E (tid t) s) = uncaught s @ [TypeError]"
proof -
  let ?s = "s\<lparr>timers := filter (\<lambda>u. tid u \<noteq> tid t) (timers s)\<rparr>"
  from assms(3) have t: "t \<in> set (timers s)" "cb t \<noteq> ReconnectCb"
    by (simp_all add: heartbeat_timers_def)
  have n: "ws ?s = None" using assms(2) by simp
  then have e: "send_error ?s = [TypeError]"
    by (simp add: send_error_def)
  have f: "fire E (tid t) s = run_timer E (cb t) ?s"
    by (rule fire_pending_timer [OF assms(1) t(1)])
  have "sent (fire E (tid t) s) = sent s \<and> ready (fire E (tid t) s) = ready s \<and>
      uncaught (fire E (tid t) s) = uncaught s @ [TypeError]"
    using t(2) n e
    by (cases "cb t") (simp_all add: f run_timer_def probe_cb_eq server_timeout_cb_eq)
  then show "sent (fire E (tid t) s) = sent s" and "ready (fire E (tid t) s) = ready s"
    and "uncaught (fire E (tid t) s) = uncaught s @ [TypeError]"
    by simp_all
qed

section \<open>The text of the introduction frame\<close>





section \<open>Frames that call no handler\<close>

text \<open>An inbound frame that parses to a value other than \<^verbatim>\<open>null\<close>, and whose
  \<^verbatim>\<open>msg_type\<close> is not \<^verbatim>\<open>"tools"\<close> or whose \<^verbatim>\<open>func_name\<close> is no member of the function
  map, own or inherited, only restarts the heartbeat: no member is called, no promise is
  created, no frame is sent and no exception escapes.\<close>

lemma unmatched_frame_dropped:
  assumes "k < nsockets s" and "json_parse E frame = Some d"
    and "d \<noteq> JNull" and "d \<noteq> JUndefined"
    and "get_prop d ''msg_type'' \<noteq> JStr ''tools'' \<or>
         funcMap s (property_key E (get_prop d ''func_name'')) = None"
  shows "step E (WsMessage k frame) s = heartCheck_start E (heartCheck_reset s) \<and>
    sent (step E (WsMessage k frame) s) = sent s \<and>
    calls (step E (WsMessage k frame) s) = calls s \<and>
    promises (step E (WsMessage k frame) s) = promises s \<and>
    uncaught (step E (WsMessage k frame) s) = uncaught s"
proof -
  have "step E (WsMessage k frame) s = heartCheck_start E (heartCheck_reset s)"
    using assms by (auto simp: onmessage_def Let_def)
  then show ?thesis by simp
qed

section \<open>Evaluating the concrete manager\<close>

lemmas eval_defs =
  example_manager_def example_env_def example_funcMap_def example_registry_def
  object_prototype_def example_parse_def example_stringify_def
  ping_request_def bad_request_def unknown_request_def toString_request_def
  WebSocketManager_def createWebSocket_def reconnect_def setTimeout_def clearTimeout_def
  heartCheck_reset_def heartCheck_start_def ws_send_def ws_close_def throw_def
  probe_cb_def server_timeout_cb_def reconnect_cb_def onclose_def onerror_def onopen_def
  onmessage_def invoke_def then_cb_def answerResp_def property_key_def close_def addFunc_def
  run_timer_def fire_def settle_def Let_def

section \<open>The claims\<close>

text \<open>
  C1. The claim: once \<^verbatim>\<open>close()\<close> has been called, no reconnection attempt is ever
  scheduled or made, even if a stale error or close signal of the prior transport arrives
  afterwards. The code sets \<^verbatim>\<open>isClosed\<close> in \<^verbatim>\<open>close\<close> and never reads it:
  \<^verbatim>\<open>reconnect\<close> tests only \<^verbatim>\<open>lockReconnect\<close> and \<^verbatim>\<open>retry\<close>. The theorem runs the
  manager: the socket opens, the application calls \<^verbatim>\<open>close()\<close>, and the close signal of
  that socket arrives. The manager is marked closed, yet a reconnect timeout of 2000 ms is
  pending next to the heartbeat probe; when it fires, a second socket is constructed and
  becomes the manager's transport.
\<close>

theorem close_is_not_terminal:
  "isClosed (run example_env [WsOpen 0, CallClose, WsClose 0] example_manager) \<and>
   timers (run example_env [WsOpen 0, CallClose, WsClose 0] example_manager) =
     [Timer 0 59000 ProbeCb, Timer 1 2000 ReconnectCb] \<and>
   nsockets (run example_env [WsOpen 0, CallClose, WsClose 0] example_manager) = 1 \<and>
   nsockets (run example_env [WsOpen 0, CallClose, WsClose 0, Fire 1] example_manager) = 2 \<and>
   ws (run example_env [WsOpen 0, CallClose, WsClose 0, Fire 1] example_manager) = Some 1 \<and>
   ready (run example_env [WsOpen 0, CallClose, WsClose 0, Fire 1] example_manager) 1 = CONNECTING \<and>
   attempts (run example_env [WsOpen 0, CallClose, WsClose 0, Fire 1] example_manager) = 2"
  by (simp add: eval_defs)

text \<open>
  C2. The claim: the retry counter is reset to 0 on every successful open and incremented
  on each failed attempt, so that after an open the full reconnect budget is available
  again. No statement of the source assigns \<^verbatim>\<open>retry\<close> except \<^verbatim>\<open>retry++\<close> in
  \<^verbatim>\<open>reconnect\<close>; \<^verbatim>\<open>onopen\<close> does not touch it. Counterexample: the first socket
  closes, the reconnect timeout fires, the second socket opens; the counter is 1.
\<close>

theorem retry_after_open_counterexample:
  "ws (run example_env [WsClose 0, Fire 0, WsOpen 1] example_manager) = Some 1 \<and>
   ready (run example_env [WsClose 0, Fire 0, WsOpen 1] example_manager) 1 = OPEN \<and>
   retry (run example_env [WsClose 0, Fire 0, WsOpen 1] example_manager) = 1"
  by (simp add: eval_defs)

text \<open>
  C2, as amended: the open signal leaves the retry counter as it is; no sequence of events
  ever decreases it; every error signal and every close signal of a constructed socket
  increments it by one, and so does a call of \<^verbatim>\<open>createWebSocket\<close> whose constructor
  throws.
\<close>

theorem retry_never_reset:
  "retry (step E (WsOpen k) s) = retry s \<and>
   retry s \<le> retry (run E es s) \<and>
   (k < nsockets s \<longrightarrow>
      retry (step E (WsError k) s) = retry s + 1 \<and>
      retry (step E (WsClose k) s) = retry s + 1) \<and>
   (has_WebSocket E \<and> ctor_throws E (attempts s) \<longrightarrow>
      retry (createWebSocket E s) = retry s + 1)"
  using run_mono(1) [of s E es]
  by (simp add: onopen_eq onerror_def onclose_def createWebSocket_def Let_def)

theorem retry_never_reset_witness:
  "retry (step example_env (WsOpen 0) example_manager) = retry example_manager \<and>
   retry example_manager \<le> retry (run example_env [WsClose 0, Fire 0, WsOpen 1] example_manager) \<and>
   0 < nsockets example_manager \<and>
   retry (step example_env (WsError 0) example_manager) = retry example_manager + 1 \<and>
   retry (step example_env (WsClose 0) example_manager) = retry example_manager + 1 \<and>
   has_WebSocket (example_env\<lparr>ctor_throws := \<lambda>n. True\<rparr>) \<and>
   ctor_throws (example_env\<lparr>ctor_throws := \<lambda>n. True\<rparr>) (attempts example_manager) \<and>
   retry (createWebSocket (example_env\<lparr>ctor_throws := \<lambda>n. True\<rparr>) example_manager) =
     retry example_manager + 1"
proof -
  have n: "0 < nsockets example_manager"
    by (simp add: eval_defs)
  have h: "has_WebSocket (example_env\<lparr>ctor_throws := \<lambda>n. True\<rparr>) \<and>
      ctor_throws (example_env\<lparr>ctor_throws := \<lambda>n. True\<rparr>) (attempts example_manager)"
    by (simp add: example_env_def)
  show ?thesis
    using n h
      retry_never_reset [of example_env 0 example_manager "[WsClose 0, Fire 0, WsOpen 1]"]
      retry_never_reset [of "example_env\<lparr>ctor_throws := \<lambda>n. True\<rparr>" 0 example_manager "[]"]
    by simp
qed

text \<open>
  C3. The claim: with no successful open, the manager gives up after exactly eleven
  failed connection attempts. \<^verbatim>\<open>reconnect\<close> counts its calls, and it is called by the
  error handler and by the close handler alike, before it looks at the lock.
  Counterexample: no socket ever opens and each failed attempt delivers an error signal
  and a close signal. After the sixth attempt has failed the counter is 12, no timeout
  is pending, the lock is free and the status is CLOSED: the manager has given up.
\<close>

theorem six_failed_attempts_counterexample:
  "attempts (run example_env six_double_failures example_manager) = 6 \<and>
   retry (run example_env six_double_failures example_manager) = 12 \<and>
   timers (run example_env six_double_failures example_manager) = [] \<and>
   lockReconnect (run example_env six_double_failures example_manager) = False \<and>
   uncaught (run example_env six_double_failures example_manager) = [] \<and>
   status example_env (run example_env six_double_failures example_manager) = Inr CLOSED"
  by (simp add: six_double_failures_def eval_defs status_def)

text \<open>
  C3, as amended: the budget is counted in failure signals: every error signal and every
  close signal of a constructed socket increments the counter. No execution makes more than
  eleven connection attempts (the constructor's and ten reconnections), and when eleven
  have been made, ten failure signals are counted and no reconnection is pending. From
  any state in which ten failure signals are counted and no reconnection is pending, the
  manager makes and schedules no further attempt and constructs no socket, whatever
  happens later; an error or close signal then leaves the timeouts as they are, throws
  nothing and sends nothing; and if the status is CLOSED and no socket opens later, the
  status stays CLOSED.
\<close>

theorem exhausted_budget_is_terminal:
  assumes "s = run E es (WebSocketManager E fm)" and "s' = run E es' s"
  shows "attempts s \<le> 11 \<and>
    (k < nsockets s \<longrightarrow>
       retry (step E (WsError k) s) = retry s + 1 \<and>
       retry (step E (WsClose k) s) = retry s + 1) \<and>
    (attempts s = 11 \<longrightarrow> 10 \<le> retry s \<and> \<not> lockReconnect s) \<and>
    (10 \<le> retry s \<and> \<not> lockReconnect s \<longrightarrow>
       attempts s' = attempts s \<and> nsockets s' = nsockets s \<and>
       pending ReconnectCb s' = [] \<and> \<not> lockReconnect s' \<and>
       timers (step E (WsError k) s') = timers s' \<and>
       timers (step E (WsClose k) s') = timers s' \<and>
       uncaught (step E (WsError k) s') = uncaught s' \<and>
       uncaught (step E (WsClose k) s') = uncaught s' \<and>
       sent (step E (WsError k) s') = sent s' \<and>
       sent (step E (WsClose k) s') = sent s' \<and>
       (status E s = Inr CLOSED \<and> (\<forall>j. WsOpen j \<notin> set es') \<longrightarrow>
          status E s' = Inr CLOSED))"
proof -
  have i: "inv s" using assms(1) by (simp add: inv_reachable)
  then have i': "inv s'" using assms(2) by (simp add: inv_run)
  have w: "ws s \<noteq> None \<longrightarrow> has_WebSocket E"
    unfolding assms(1) by (rule transport_reachable)
  have b: "attempts s + length (pending ReconnectCb s) \<le> 1 + min (retry s) 10"
    and l: "length (pending ReconnectCb s) = (if lockReconnect s then 1 else 0)"
    using i by (simp_all add: inv_def budget_ok_def lock_ok_def)
  have le: "attempts s \<le> 11"
    using b by linarith
  have el: "10 \<le> retry s \<and> \<not> lockReconnect s" if "attempts s = 11"
  proof -
    have "length (pending ReconnectCb s) = 0" and "10 \<le> retry s"
      using b that by linarith+
    then show ?thesis using l by (simp split: if_splits)
  qed
  { assume x: "10 \<le> retry s" "\<not> lockReconnect s"
    note r = exhausted_run [OF i x w, of es', folded assms(2)]
    have a: "attempts s' = attempts s" and q: "10 \<le> retry s'" and nl: "\<not> lockReconnect s'"
      using r by simp_all
    have n: "nsockets s' = nsockets s"
      using run_same_sockets [of E es' s] a assms(2) by simp
    have p: "pending ReconnectCb s' = []"
      using i' nl by (simp add: inv_def lock_ok_def)
    have c: "status E s = Inr CLOSED \<and> (\<forall>j. WsOpen j \<notin> set es') \<longrightarrow>
        status E s' = Inr CLOSED"
      using r by simp
    note a n p nl failure_signal_exhausted [OF q] c }
  moreover have "k < nsockets s \<longrightarrow>
       retry (step E (WsError k) s) = retry s + 1 \<and>
       retry (step E (WsClose k) s) = retry s + 1"
    by (simp add: onerror_def onclose_def)
  ultimately show ?thesis using le el by (simp del: step.simps)
qed

theorem exhausted_budget_is_terminal_witness:
  "10 < nsockets (run example_env (ten_failures @ [WsClose 10]) example_manager) \<and>
   retry (step example_env (WsError 10)
     (run example_env (ten_failures @ [WsClose 10]) example_manager)) = 12 \<and>
   attempts (run example_env (ten_failures @ [WsClose 10]) example_manager) = 11 \<and>
   retry (run example_env (ten_failures @ [WsClose 10]) example_manager) = 11 \<and>
   lockReconnect (run example_env (ten_failures @ [WsClose 10]) example_manager) = False \<and>
   status example_env (run example_env (ten_failures @ [WsClose 10]) example_manager) =
     Inr CLOSED \<and>
   attempts (run example_env [WsError 10]
     (run example_env (ten_failures @ [WsClose 10]) example_manager)) = 11 \<and>
   pending ReconnectCb (run example_env [WsError 10]
     (run example_env (ten_failures @ [WsClose 10]) example_manager)) = [] \<and>
   status example_env (run example_env [WsError 10]
     (run example_env (ten_failures @ [WsClose 10]) example_manager)) = Inr CLOSED"
proof -
  have a: "attempts (run example_env (ten_failures @ [WsClose 10]) example_manager) = 11 \<and>
      retry (run example_env (ten_failures @ [WsClose 10]) example_manager) = 11 \<and>
      lockReconnect (run example_env (ten_failures @ [WsClose 10]) example_manager) = False \<and>
      status example_env (run example_env (ten_failures @ [WsClose 10]) example_manager) =
        Inr CLOSED"
    by (simp add: ten_failures_def eval_defs status_def)
  have b: "\<forall>j. WsOpen j \<notin> set [WsError 10]" by simp
  have c: "10 < nsockets (run example_env (ten_failures @ [WsClose 10]) example_manager)"
    by (simp add: ten_failures_def eval_defs)
  note t = exhausted_budget_is_terminal [where E = example_env
      and es = "ten_failures @ [WsClose 10]" and fm = example_funcMap
      and es' = "[WsError 10]" and k = 10, OF refl refl, folded example_manager_def]
  from a b c t show ?thesis by (simp del: step.simps run.simps)
qed

text \<open>
  C6. The claim: before the retry cap, exactly one reconnection attempt is scheduled per
  failure signal, and never two at a time. \<^verbatim>\<open>reconnect\<close> returns early while
  \<^verbatim>\<open>lockReconnect\<close> is set, so the second signal of one failure schedules nothing.
  Counterexample: an error signal and a close signal of the first socket; both are
  counted, the manager is not closed, and one timeout has been set in all.
\<close>

theorem two_signals_one_reconnect_counterexample:
  "retry (run example_env [WsError 0, WsClose 0] example_manager) = 2 \<and>
   isClosed (run example_env [WsError 0, WsClose 0] example_manager) = False \<and>
   timers (run example_env [WsError 0, WsClose 0] example_manager) =
     [Timer 0 2000 ReconnectCb] \<and>
   next_timer (run example_env [WsError 0, WsClose 0] example_manager) = 1"
  by (simp add: eval_defs)

text \<open>
  C6, as amended: in every state the manager reaches, at most one reconnect timeout is
  pending, and \<^verbatim>\<open>lockReconnect\<close> is set exactly then. An error or close signal of a
  constructed socket schedules one reconnect timeout of 2000 ms when no reconnection is
  pending and fewer than ten failure signals have been counted; otherwise it schedules
  nothing. It increments the retry counter in both cases. When the pending reconnect
  timeout fires, one call of \<^verbatim>\<open>createWebSocket\<close> is made, and no reconnection is pending
  after it.
\<close>

theorem at_most_one_reconnect_pending:
  assumes "s = run E es (WebSocketManager E fm)" and "k < nsockets s"
  shows "length (pending ReconnectCb s) \<le> 1 \<and>
    lockReconnect s = (pending ReconnectCb s \<noteq> []) \<and>
    pending ReconnectCb (step E (WsError k) s) =
      (if lockReconnect s \<or> 10 \<le> retry s then pending ReconnectCb s
       else [Timer (next_timer s) 2000 ReconnectCb]) \<and>
    pending ReconnectCb (step E (WsClose k) s) =
      (if lockReconnect s \<or> 10 \<le> retry s then pending ReconnectCb s
       else [Timer (next_timer s) 2000 ReconnectCb]) \<and>
    retry (step E (WsError k) s) = retry s + 1 \<and>
    retry (step E (WsClose k) s) = retry s + 1 \<and>
    (\<forall>t \<in> set (pending ReconnectCb s).
       attempts (step E (Fire (tid t)) s) = attempts s + 1 \<and>
       pending ReconnectCb (step E (Fire (tid t)) s) = [])"
proof -
  have i: "inv s" using assms(1) by (simp add: inv_reachable)
  then have l: "length (pending ReconnectCb s) = (if lockReconnect s then 1 else 0)"
    by (simp add: inv_def lock_ok_def)
  have e: "\<not> lockReconnect s \<Longrightarrow> pending ReconnectCb s = []"
    using l by simp
  have p: "pending ReconnectCb (s\<lparr>ready := r\<rparr>) = pending ReconnectCb s" for r
    by (simp add: pending_def)
  have "pending ReconnectCb (reconnect (s\<lparr>ready := r\<rparr>)) =
      (if lockReconnect s \<or> 10 \<le> retry s then pending ReconnectCb s
       else [Timer (next_timer s) 2000 ReconnectCb])" for r
    using e by (simp add: pending_reconnect p)
  then show ?thesis
    using assms(2) l fire_reconnect_timer [OF i, of _ E]
    by (auto simp: onerror_def onclose_def)
qed

theorem at_most_one_reconnect_pending_witness:
  "0 < nsockets (run example_env [WsError 0] example_manager) \<and>
   length (pending ReconnectCb (run example_env [WsError 0] example_manager)) \<le> 1 \<and>
   pending ReconnectCb (step example_env (WsClose 0)
       (run example_env [WsError 0] example_manager)) =
     [Timer 0 2000 ReconnectCb] \<and>
   Timer 0 2000 ReconnectCb \<in>
     set (pending ReconnectCb (run example_env [WsError 0] example_manager)) \<and>
   attempts (step example_env (Fire 0) (run example_env [WsError 0] example_manager)) = 2"
proof -
  have a: "0 < nsockets (run example_env [WsError 0] example_manager) \<and>
      lockReconnect (run example_env [WsError 0] example_manager) \<and>
      attempts (run example_env [WsError 0] example_manager) = 1 \<and>
      pending ReconnectCb (run example_env [WsError 0] example_manager) =
        [Timer 0 2000 ReconnectCb]"
    by (simp add: eval_defs pending_def)
  note t = at_most_one_reconnect_pending [OF refl,
      of 0 example_env "[WsError 0]" example_funcMap, folded example_manager_def]
  from a t show ?thesis by (simp del: step.simps run.simps)
qed

text \<open>
  C7. The claim: \<^verbatim>\<open>close()\<close> releases the transport and cancels the pending heartbeat
  timeouts. \<^verbatim>\<open>close\<close> calls neither \<^verbatim>\<open>heartCheck.reset\<close> nor \<^verbatim>\<open>clearTimeout\<close>; only
  \<^verbatim>\<open>onopen\<close> and \<^verbatim>\<open>onmessage\<close> do. Counterexample: the socket opens and the
  application calls \<^verbatim>\<open>close()\<close>; the probe timeout armed at the open is still pending,
  and when it fires its callback runs (and fails on \<^verbatim>\<open>ws\<close> being \<^verbatim>\<open>null\<close>).
\<close>

theorem close_keeps_heartbeat_counterexample:
  "ws (run example_env [WsOpen 0, CallClose] example_manager) = None \<and>
   timers (run example_env [WsOpen 0, CallClose] example_manager) = [Timer 0 59000 ProbeCb] \<and>
   uncaught (run example_env [WsOpen 0, CallClose] example_manager) = [] \<and>
   uncaught (run example_env [WsOpen 0, CallClose, Fire 0] example_manager) = [TypeError]"
  by (simp add: eval_defs)

text \<open>
  C7, as amended: \<^verbatim>\<open>close()\<close> sets the closed flag, closes the transport the manager
  holds (it is neither connecting nor open afterwards) and drops the reference to it at
  once; it leaves every pending timeout and both heartbeat handles as they are. The
  released transport is out of the manager's reach from then on: in every state of every
  later run the manager does not hold it, no frame has been sent on it since the call,
  and no timeout that fires changes its ready state; so no heartbeat timeout sends a
  probe on it or closes it. In any later state in which the manager holds no transport, a
  heartbeat timeout that fires transmits nothing and changes the ready state of no
  socket.
\<close>

theorem close_releases_transport:
  assumes "s = run E es (WebSocketManager E fm)" and "ws s = Some k"
    and "s' = step E CallClose s" and "s'' = run E es' s'"
  shows "ws s' = None \<and> isClosed s' \<and> ready s' k \<noteq> CONNECTING \<and> ready s' k \<noteq> OPEN \<and>
    timers s' = timers s \<and>
    timeoutObj s' = timeoutObj s \<and> serverTimeoutObj s' = serverTimeoutObj s \<and>
    ws s'' \<noteq> Some k \<and>
    filter (\<lambda>x. fst x = k) (sent s'') = filter (\<lambda>x. fst x = k) (sent s) \<and>
    (\<forall>h. ready (step E (Fire h) s'') k = ready s'' k) \<and>
    (ws s'' = None \<longrightarrow>
       (\<forall>t \<in> set (heartbeat_timers s'').
          sent (step E (Fire (tid t)) s'') = sent s'' \<and>
          ready (step E (Fire (tid t)) s'') = ready s'' \<and>
          uncaught (step E (Fire (tid t)) s'') = uncaught s'' @ [TypeError]))"
proof -
  have c: "s' = close s" using assms(3) by simp
  have i: "inv s" using assms(1) by (simp add: inv_reachable)
  then have k: "k < nsockets s" using assms(2) by (simp add: inv_def ws_ok_iff)
  have "inv s'" unfolding assms(3) by (rule inv_step [OF i])
  then have "inv s''" unfolding assms(4) by (rule inv_run)
  then have ok: "timers_ok s''" by (simp add: inv_def)
  have d: "ready s' k \<noteq> CONNECTING \<and> ready s' k \<noteq> OPEN"
    using assms(2) by (simp add: c close_eq)
  have n: "ws s' \<noteq> Some k" "k < nsockets s'" "sent s' = sent s"
    using k by (simp_all add: c)
  note r = released_run [OF n(1,2), of E es', folded assms(4)]
  have f: "ready (step E (Fire h) s'') k = ready s'' k" for h
    using released_fire(4) [of s'' k E h] r by simp
  have g: "sent (step E (Fire (tid t)) s'') = sent s'' \<and>
      ready (step E (Fire (tid t)) s'') = ready s'' \<and>
      uncaught (step E (Fire (tid t)) s'') = uncaught s'' @ [TypeError]"
    if "ws s'' = None" "t \<in> set (heartbeat_timers s'')" for t
    using heartbeat_fires_without_transport [OF ok that, of E] by simp
  show ?thesis
    using d r f g n(3) by (simp add: c)
qed

theorem close_releases_transport_witness:
  "ws (run example_env [WsOpen 0] example_manager) = Some 0 \<and>
   ws (run example_env [WsMessage 0 ''pong'']
     (step example_env CallClose (run example_env [WsOpen 0] example_manager))) = None \<and>
   Timer 1 59000 ProbeCb \<in>
     set (heartbeat_timers
       (run example_env [WsMessage 0 ''pong'']
         (step example_env CallClose (run example_env [WsOpen 0] example_manager)))) \<and>
   filter (\<lambda>x. fst x = 0)
     (sent (run example_env [WsMessage 0 ''pong'']
       (step example_env CallClose (run example_env [WsOpen 0] example_manager)))) =
   filter (\<lambda>x. fst x = 0) (sent (run example_env [WsOpen 0] example_manager)) \<and>
   uncaught (step example_env (Fire 1)
     (run example_env [WsMessage 0 ''pong'']
       (step example_env CallClose (run example_env [WsOpen 0] example_manager)))) =
   uncaught (run example_env [WsMessage 0 ''pong'']
     (step example_env CallClose (run example_env [WsOpen 0] example_manager))) @
     [TypeError]"
proof -
  have a: "ws (run example_env [WsOpen 0] example_manager) = Some 0"
    by (simp add: eval_defs)
  have b: "ws (run example_env [WsMessage 0 ''pong'']
        (step example_env CallClose (run example_env [WsOpen 0] example_manager))) = None \<and>
      Timer 1 59000 ProbeCb \<in>
        set (heartbeat_timers
          (run example_env [WsMessage 0 ''pong'']
            (step example_env CallClose (run example_env [WsOpen 0] example_manager))))"
    by (simp add: eval_defs heartbeat_timers_def)
  note t = close_releases_transport [where E = example_env and es = "[WsOpen 0]"
      and fm = example_funcMap and k = 0 and es' = "[WsMessage 0 ''pong'']",
      folded example_manager_def, OF refl a refl refl]
  from a b t show ?thesis by (auto simp del: step.simps run.simps)
qed

text \<open>
  C4. Every inbound frame, the bare \<^verbatim>\<open>pong\<close> included, cancels the pending heartbeat
  timeouts and arms one probe timeout of the idle timeout: after the frame it is the only
  heartbeat timeout pending. When that timeout fires while the manager's transport is
  open, the frame \<^verbatim>\<open>ping\<close> is sent on it and one force-close timeout of the same
  duration is armed; when that one fires in turn, the transport is closed by the manager
  (its ready state becomes CLOSING) and no heartbeat timeout is left.
\<close>

theorem heartbeat_probe_then_force_close:
  assumes "s = run E es (WebSocketManager E fm)" and "k < nsockets s"
    and "s1 = step E (WsMessage k frame) s"
    and "s2 = step E (Fire (next_timer s)) s1"
    and "s3 = step E (Fire (next_timer s + 1)) s2"
  shows "heartbeat_timers s1 = [Timer (next_timer s) (heartCheckTime E) ProbeCb] \<and>
    (ws s = Some j \<and> ready s j = OPEN \<longrightarrow>
       sent s2 = sent s1 @ [(j, ''ping'')] \<and>
       heartbeat_timers s2 =
         [Timer (next_timer s + 1) (heartCheckTime E) ServerTimeoutCb] \<and>
       ready s3 j = CLOSING \<and> sent s3 = sent s2 \<and> heartbeat_timers s3 = [])"
proof -
  have "inv s" using assms(1) by (simp add: inv_reachable)
  then have ok: "timers_ok s" by (simp add: inv_def)
  have s1: "s1 = onmessage E frame s" using assms(2,3) by simp
  have ok1: "timers_ok s1" unfolding assms(3) by (rule timers_ok_step [OF ok])
  have ok2: "timers_ok s2" unfolding assms(4) by (rule timers_ok_step [OF ok1])
  have t1: "timers s1 = pending ReconnectCb s @ [Timer (next_timer s) (heartCheckTime E) ProbeCb]"
    and h1: "heartbeat_timers s1 = [Timer (next_timer s) (heartCheckTime E) ProbeCb]"
    unfolding s1 by (rule heartbeat_after_message [OF ok])+
  have n1: "next_timer s1 = next_timer s + 1" and w1: "ws s1 = ws s" and r1: "ready s1 = ready s"
    by (simp_all add: s1)
  { assume a: "ws s = Some j" "ready s j = OPEN"
    have f2: "s2 = fire E (next_timer s) s1" using assms(4) by simp
    note p = probe_fires [OF ok ok1 t1 order_refl, of j E, folded f2]
    have p1: "sent s2 = sent s1 @ [(j, ''ping'')]"
      and p2: "timers s2 =
        pending ReconnectCb s @ [Timer (next_timer s + 1) (heartCheckTime E) ServerTimeoutCb]"
      and p3: "ws s2 = Some j" and p4: "ready s2 j = OPEN"
      using p a by (simp_all add: w1 r1 n1)
    have h2: "heartbeat_timers s2 =
        [Timer (next_timer s + 1) (heartCheckTime E) ServerTimeoutCb]"
      by (simp add: heartbeat_timers_def p2 no_heartbeat_in_reconnects)
    have f3: "s3 = fire E (next_timer s + 1) s2" using assms(5) by simp
    note q = server_timeout_fires [OF ok ok2 p2 _ p3 p4, of E, folded f3]
    have "ready s3 j = CLOSING" and "sent s3 = sent s2" and "heartbeat_timers s3 = []"
      using q by (simp_all add: heartbeat_timers_def no_heartbeat_in_reconnects)
    note p1 h2 this }
  then show ?thesis using h1 by simp
qed

theorem heartbeat_probe_then_force_close_witness:
  "0 < nsockets (run example_env [WsOpen 0] example_manager) \<and>
   ws (run example_env [WsOpen 0] example_manager) = Some 0 \<and>
   ready (run example_env [WsOpen 0] example_manager) 0 = OPEN \<and>
   next_timer (run example_env [WsOpen 0] example_manager) = 1 \<and>
   heartbeat_timers
     (step example_env (WsMessage 0 ''pong'') (run example_env [WsOpen 0] example_manager)) =
     [Timer 1 59000 ProbeCb] \<and>
   heartbeat_timers
     (step example_env (Fire 1)
       (step example_env (WsMessage 0 ''pong'')
         (run example_env [WsOpen 0] example_manager))) =
     [Timer 2 59000 ServerTimeoutCb] \<and>
   ready
     (step example_env (Fire 2)
       (step example_env (Fire 1)
         (step example_env (WsMessage 0 ''pong'')
           (run example_env [WsOpen 0] example_manager)))) 0 = CLOSING"
proof -
  have a: "0 < nsockets (run example_env [WsOpen 0] example_manager) \<and>
      ws (run example_env [WsOpen 0] example_manager) = Some 0 \<and>
      ready (run example_env [WsOpen 0] example_manager) 0 = OPEN \<and>
      next_timer (run example_env [WsOpen 0] example_manager) = 1 \<and>
      heartCheckTime example_env = 59000"
    by (simp add: eval_defs)
  note t = heartbeat_probe_then_force_close [where E = example_env and es = "[WsOpen 0]"
      and fm = example_funcMap and k = 0 and frame = "''pong''" and j = 0,
      OF refl _ refl refl refl, folded example_manager_def]
  from a t show ?thesis by (simp add: numeral_2_eq_2 del: step.simps run.simps)
qed




text \<open>
  C9. The claim: a frame whose \<^verbatim>\<open>func_name\<close> has no entry in the function registry is
  dropped silently: no handler is called and no error surfaces. \<^verbatim>\<open>onmessage\<close> tests
  \<^verbatim>\<open>data.func_name in funcMap\<close>, which is true for the members the map inherits as
  well. The theorem runs the manager whose registry holds \<^verbatim>\<open>ping_tool\<close> and
  \<^verbatim>\<open>bad_tool\<close>: the socket opens and a tool request for \<^verbatim>\<open>toString\<close> arrives. Nothing
  is registered under that name, yet the inherited member is called with the request's
  \<^verbatim>\<open>params\<close>, and the exception of the call expression escapes the handler of the
  message event; the only frame sent is the introduction.
\<close>

theorem inherited_member_is_called:
  \<open>example_registry ''toString'' = None \<and>
   json_parse example_env ''toString_request'' = Some toString_request \<and>
   get_prop toString_request ''msg_type'' = JStr ''tools'' \<and>
   get_prop toString_request ''func_name'' = JStr ''toString'' \<and>
   calls (run example_env [WsOpen 0] example_manager) = [] \<and>
   uncaught (run example_env [WsOpen 0] example_manager) = [] \<and>
   calls (run example_env [WsOpen 0, WsMessage 0 ''toString_request''] example_manager) =
     [(''toString'', JObj [])] \<and>
   uncaught (run example_env [WsOpen 0, WsMessage 0 ''toString_request''] example_manager) =
     [HandlerError] \<and>
   promises (run example_env [WsOpen 0, WsMessage 0 ''toString_request''] example_manager) = [] \<and>
   sent (run example_env [WsOpen 0, WsMessage 0 ''toString_request''] example_manager) =
     sent (run example_env [WsOpen 0] example_manager)\<close>
  by (simp add: eval_defs)

text \<open>
  C5. An inbound frame that parses to a value with \<^verbatim>\<open>msg_type\<close> \<^verbatim>\<open>"tools"\<close> and a
  \<^verbatim>\<open>func_name\<close> that is a key of the function map calls the registered handler with the
  request's \<^verbatim>\<open>params\<close>, and sends nothing at that moment. The promise the handler
  returned stays pending through whatever events follow. When it resolves while the
  manager's transport is open, one frame is sent on that transport: \<^verbatim>\<open>JSON.stringify\<close>
  of the object with the request's \<^verbatim>\<open>id\<close>, \<^verbatim>\<open>msg_type\<close> \<^verbatim>\<open>"tools_result"\<close>, the agent
  name and the handler's result, in this order. When it rejects or does not settle,
  nothing is sent for it.
\<close>

theorem tool_request_answered:
  assumes "s = run E pre (WebSocketManager E fm)" and "k < nsockets s"
    and "frame \<noteq> ''pong''" and "json_parse E frame = Some d"
    and "get_prop d ''msg_type'' = JStr ''tools''"
    and "funcMap s (property_key E (get_prop d ''func_name'')) = Some h"
    and "h (get_prop d ''params'') = out" and "out \<noteq> Throws"
    and "s1 = step E (WsMessage k frame) s"
    and "Settle (next_promise s) \<notin> set es" and "s2 = run E es s1"
  shows "calls s1 =
      calls s @ [(property_key E (get_prop d ''func_name''), get_prop d ''params'')] \<and>
    sent s1 = sent s \<and>
    (\<forall>v j. out = Resolves v \<and> ws s2 = Some j \<and> ready s2 j = OPEN \<longrightarrow>
       sent (step E (Settle (next_promise s)) s2) =
         sent s2 @
         [(j, json_stringify E
               (JObj [(''id'', get_prop d ''id''),
                      (''msg_type'', JStr ''tools_result''),
                      (''agent'', JStr (agentName E)),
                      (''func_result'', v)]))]) \<and>
    ((\<forall>v. out \<noteq> Resolves v) \<longrightarrow> sent (step E (Settle (next_promise s)) s2) = sent s2)"
proof -
  have "inv s" using assms(1) by (simp add: inv_reachable)
  then have ok: "promises_ok s" by (simp add: inv_def)
  have t: "h (get_prop d ''params'') \<noteq> Throws" using assms(7,8) by simp
  note p = tool_request_pending [OF ok assms(2-6) t assms(10),
      folded assms(9), folded assms(11), unfolded assms(7)]
  have r: "sent (step E (Settle (next_promise s)) s2) =
      sent s2 @
      [(j, json_stringify E
            (JObj [(''id'', get_prop d ''id''),
                   (''msg_type'', JStr ''tools_result''),
                   (''agent'', JStr (agentName E)),
                   (''func_result'', v)]))]"
    if "out = Resolves v" "ws s2 = Some j" "ready s2 j = OPEN" for v j
    using settle_resolved [of s2 "next_promise s" d v E] p(1) that
    by (simp add: transmits_def answerResp_def)
  have n: "sent (step E (Settle (next_promise s)) s2) = sent s2" if "\<forall>v. out \<noteq> Resolves v"
  proof (cases out)
    case Throws
    then show ?thesis using assms(8) by simp
  next
    case (Resolves v)
    then show ?thesis using that by simp
  next
    case (Rejects e)
    then show ?thesis
      using settle_rejected [of s2 "next_promise s" d e E] p(1) by simp
  next
    case Unsettled
    then show ?thesis
      using settle_unsettled [of s2 "next_promise s" d E] p(1) by simp
  qed
  show ?thesis
    using p(3,4) r n by blast
qed

theorem tool_request_answered_witness:
  "sent (step example_env (WsMessage 0 ''ping_request'')
     (run example_env [WsOpen 0] example_manager)) =
   sent (run example_env [WsOpen 0] example_manager) \<and>
   calls (step example_env (WsMessage 0 ''ping_request'')
     (run example_env [WsOpen 0] example_manager)) = [(''ping_tool'', JObj [])] \<and>
   sent (step example_env (Settle 0)
     (step example_env (WsMessage 0 ''ping_request'')
       (run example_env [WsOpen 0] example_manager))) =
   sent (step example_env (WsMessage 0 ''ping_request'')
     (run example_env [WsOpen 0] example_manager)) @ [(0, ''ping_response'')]"
proof -
  let ?s = "run example_env [WsOpen 0] example_manager"
  let ?s1 = "step example_env (WsMessage 0 ''ping_request'') ?s"
  have a1: "0 < nsockets ?s" by (simp add: eval_defs)
  have a2: "''ping_request'' \<noteq> ''pong''" by simp
  have a3: "json_parse example_env ''ping_request'' = Some ping_request"
    by (simp add: example_env_def example_parse_def)
  have a4: "get_prop ping_request ''msg_type'' = JStr ''tools''"
    by (simp add: ping_request_def)
  have a5: "funcMap ?s (property_key example_env (get_prop ping_request ''func_name'')) =
      Some (\<lambda>params. Resolves (JStr ''ok''))"
    by (simp add: eval_defs)
  have a6: "Resolves (JStr ''ok'') \<noteq> Throws" by simp
  have a7: "Settle (next_promise ?s) \<notin> set []" by simp
  have b: "next_promise ?s = 0 \<and> calls ?s = [] \<and> ws ?s1 = Some 0 \<and> ready ?s1 0 = OPEN"
    by (simp add: eval_defs)
  have c: "json_stringify example_env
      (JObj [(''id'', get_prop ping_request ''id''), (''msg_type'', JStr ''tools_result''),
             (''agent'', JStr (agentName example_env)), (''func_result'', JStr ''ok'')]) =
      ''ping_response''"
    by (simp add: example_env_def example_stringify_def ping_request_def)
  note t = tool_request_answered [where E = example_env and pre = "[WsOpen 0]"
      and fm = example_funcMap and es = "[]", folded example_manager_def,
      OF refl a1 a2 a3 a4 a5 refl a6 refl a7 run.simps(1) [symmetric]]
  have d: "property_key example_env (get_prop ping_request ''func_name'') = ''ping_tool'' \<and>
      get_prop ping_request ''params'' = JObj []"
    by (simp add: ping_request_def property_key_def)
  from b c d t show ?thesis by (simp del: step.simps run.simps)
qed

text \<open>
  C10. When the promise of a registered handler rejects, the \<^verbatim>\<open>then\<close> closure does not
  run: settling the promise sends nothing and changes nothing of the manager; the
  promise is dropped and the rejection is left unhandled (it is logged with the
  exceptions that escaped). From then on, whatever events follow, that promise is never
  pending again, so its closure can never send a response.
\<close>

theorem rejected_request_unanswered:
  assumes "s = run E pre (WebSocketManager E fm)" and "k < nsockets s"
    and "frame \<noteq> ''pong''" and "json_parse E frame = Some d"
    and "get_prop d ''msg_type'' = JStr ''tools''"
    and "funcMap s (property_key E (get_prop d ''func_name'')) = Some h"
    and "h (get_prop d ''params'') = Rejects r"
    and "s1 = step E (WsMessage k frame) s"
    and "Settle (next_promise s) \<notin> set es" and "s2 = run E es s1"
    and "s3 = step E (Settle (next_promise s)) s2"
  shows "sent s1 = sent s \<and>
    s3 = s2\<lparr>promises := filter (\<lambda>q. fst q \<noteq> next_promise s) (promises s2),
            uncaught := uncaught s2 @ [Rejection r]\<rparr> \<and>
    sent s3 = sent s2 \<and>
    map_of (promises (run E es' s3)) (next_promise s) = None \<and>
    step E (Settle (next_promise s)) (run E es' s3) = run E es' s3"
proof -
  have i: "inv s" using assms(1) by (simp add: inv_reachable)
  then have ok: "promises_ok s" by (simp add: inv_def)
  have "inv s2" unfolding assms(10) assms(8) by (rule inv_run [OF inv_step [OF i]])
  then have "inv s3" unfolding assms(11) by (rule inv_step)
  then have ok3: "promises_ok s3" by (simp add: inv_def)
  have t: "h (get_prop d ''params'') \<noteq> Throws" using assms(7) by simp
  note p = tool_request_pending [OF ok assms(2-6) t assms(9),
      folded assms(8), folded assms(10), unfolded assms(7)]
  have e: "s3 = s2\<lparr>promises := filter (\<lambda>q. fst q \<noteq> next_promise s) (promises s2),
            uncaught := uncaught s2 @ [Rejection r]\<rparr>"
    using settle_rejected [OF p(1), of E] assms(11) by simp
  have g: "map_of (promises s3) (next_promise s) = None"
    by (simp add: e map_of_filter_same)
  have l: "next_promise s < next_promise s3"
    using p(2) by (simp add: e)
  have n: "map_of (promises (run E es' s3)) (next_promise s) = None"
    by (rule promise_gone_run [OF ok3 l g])
  have "step E (Settle (next_promise s)) (run E es' s3) = run E es' s3"
    using settle_gone [OF n, of E] by simp
  then show ?thesis
    using p(4) e n by simp
qed

theorem rejected_request_unanswered_witness:
  "sent (step example_env (Settle 0)
     (step example_env (WsMessage 0 ''bad_request'')
       (run example_env [WsOpen 0] example_manager))) =
   sent (step example_env (WsMessage 0 ''bad_request'')
     (run example_env [WsOpen 0] example_manager)) \<and>
   uncaught (step example_env (Settle 0)
     (step example_env (WsMessage 0 ''bad_request'')
       (run example_env [WsOpen 0] example_manager))) =
   uncaught (step example_env (WsMessage 0 ''bad_request'')
     (run example_env [WsOpen 0] example_manager)) @ [Rejection (JStr ''failed'')]"
proof -
  let ?s = "run example_env [WsOpen 0] example_manager"
  have a1: "0 < nsockets ?s" by (simp add: eval_defs)
  have a2: "''bad_request'' \<noteq> ''pong''" by simp
  have a3: "json_parse example_env ''bad_request'' = Some bad_request"
    by (simp add: example_env_def example_parse_def)
  have a4: "get_prop bad_request ''msg_type'' = JStr ''tools''"
    by (simp add: bad_request_def)
  have a5: "funcMap ?s (property_key example_env (get_prop bad_request ''func_name'')) =
      Some (\<lambda>params. Rejects (JStr ''failed''))"
    by (simp add: eval_defs)
  have a7: "Settle (next_promise ?s) \<notin> set []" by simp
  have b: "next_promise ?s = 0" by (simp add: eval_defs)
  note t = rejected_request_unanswered [where E = example_env and pre = "[WsOpen 0]"
      and fm = example_funcMap and es = "[]" and es' = "[]", folded example_manager_def,
      OF refl a1 a2 a3 a4 a5 refl refl a7 run.simps(1) [symmetric] refl,
      unfolded run.simps(1)]
  have "step example_env (Settle 0) (step example_env (WsMessage 0 ''bad_request'') ?s) =
      (step example_env (WsMessage 0 ''bad_request'') ?s)
        \<lparr>promises := filter (\<lambda>q. fst q \<noteq> 0)
            (promises (step example_env (WsMessage 0 ''bad_request'') ?s)),
         uncaught := uncaught (step example_env (WsMessage 0 ''bad_request'') ?s) @
            [Rejection (JStr ''failed'')]\<rparr>"
    using t b by (simp del: step.simps run.simps)
  then show ?thesis by (simp del: step.simps run.simps)
qed

end
